theory Spec2Isabelle
  imports Main "HOL-Library.AList"
begin

section \<open>Feed items and node data\<close>

text \<open>
  The feed item of \<^verbatim>\<open>models/IFeedItem\<close> with the fields the feed client and the
  visualizer read. A JavaScript field that may be \<^verbatim>\<open>undefined\<close> is an option; a parent
  id is a string, and the empty string stands for every falsy parent (\<^verbatim>\<open>""\<close> and
  \<^verbatim>\<open>undefined\<close> alike, the code only tests \<^verbatim>\<open>if (item.parent1)\<close>).
\<close>

datatype payloadType = Transaction | Index | MS | NoPayload

text \<open>
  The metadata object. The key \<^verbatim>\<open>MS\<close> holds a number (\<^verbatim>\<open>convertItem\<close> stores a milestone's
  index there, \<^verbatim>\<open>highlightMilestones\<close> a key of \<^verbatim>\<open>_msIndexToNode\<close>); the other keys (Tag,
  Address, Bundle, Index) hold strings and stay in key order.
\<close>

record metadata =
  msOf :: "nat option"
  propsOf :: "(string \<times> string) list"

record feedItem =
  idOf :: string
  valueOf :: "int option"
  parent1 :: string
  parent2 :: string
  metaData :: "metadata option"
  payloadType :: "payloadType option"
  confirmed :: bool

text \<open>\<^verbatim>\<open>feedItem.metaData?.MS\<close>: the number under the key MS, if the object and the key exist.\<close>

definition metaMS :: "feedItem \<Rightarrow> nat option" where
  "metaMS it = (case metaData it of None \<Rightarrow> None | Some m \<Rightarrow> msOf m)"

text \<open>The test \<^verbatim>\<open>if (feedItem.metaData?.MS)\<close>: the number \<^verbatim>\<open>0\<close> is falsy.\<close>

definition hasMS :: "feedItem \<Rightarrow> bool" where
  "hasMS it = (case metaMS it of None \<Rightarrow> False | Some n \<Rightarrow> n \<noteq> 0)"

text \<open>\<^verbatim>\<open>INodeData\<close>: the payload of a graph node.\<close>

record nodeData =
  feedItem :: feedItem
  added :: nat
  graphId :: "nat option"

section \<open>Node style (\<^verbatim>\<open>Visualizer.calculateNodeStyle\<close>)\<close>

datatype color =
  COLOR_PENDING | COLOR_ZERO_CONFIRMED | COLOR_VALUE_CONFIRMED | COLOR_MILESTONE
  | COLOR_SEARCH_RESULT

datatype vertexSize = VERTEX_SIZE_REGULAR | VERTEX_SIZE_LARGE

text \<open>\<^verbatim>\<open>feedItem?.value !== 0 && feedItem?.value !== undefined\<close>\<close>

definition nonZeroValue :: "feedItem \<Rightarrow> bool" where
  "nonZeroValue it = (valueOf it \<noteq> Some 0 \<and> valueOf it \<noteq> None)"

definition calculateNodeStyle :: "nodeData option \<Rightarrow> bool \<Rightarrow> color \<times> vertexSize" where
  "calculateNodeStyle node highlight =
     (case node of
        None \<Rightarrow> (COLOR_PENDING, VERTEX_SIZE_REGULAR)
      | Some d \<Rightarrow>
          (let color =
                 (if highlight then COLOR_SEARCH_RESULT
                  else if hasMS (feedItem d) then COLOR_MILESTONE
                  else if confirmed (feedItem d) then
                    (if nonZeroValue (feedItem d) then COLOR_VALUE_CONFIRMED
                     else COLOR_ZERO_CONFIRMED)
                  else COLOR_PENDING);
               size =
                 (if hasMS (feedItem d) \<or> nonZeroValue (feedItem d) then VERTEX_SIZE_LARGE
                  else VERTEX_SIZE_REGULAR)
           in (color, size)))"

section \<open>Feed client (\<^verbatim>\<open>services/feedClient.ts\<close>)\<close>

text \<open>
  The state of a \<^verbatim>\<open>FeedClient\<close> and the handlers it registers on its socket for the
  events \<^verbatim>\<open>subscribe\<close> and \<^verbatim>\<open>transactions\<close>. The server and the decoding of a raw item
  are collaborators outside the class: an event is given as it arrives on the socket, and
  \<^verbatim>\<open>convertItem\<close> is a parameter. A listener is a callback; for the delivery loop all
  that matters is whether a call returns or throws.
\<close>

definition MIN_ITEMS_PER_TYPE :: nat where
  "MIN_ITEMS_PER_TYPE = 50"

type_synonym itemsMetadata = "(string \<times> metadata) list"

datatype outcome = Returned | Thrown

type_synonym listener = "feedItem list \<Rightarrow> itemsMetadata option \<Rightarrow> outcome"

record 'r subscriptionMessage =
  msgSubscriptionId :: string
  msgItems :: "'r list"
  msgItemsMetadata :: "itemsMetadata option"

text \<open>
  \<^verbatim>\<open>protocolOg\<close> is the test \<^verbatim>\<open>this._networkConfig?.protocolVersion === "og"\<close>;
  \<^verbatim>\<open>subscribers\<close> is the object \<^verbatim>\<open>_subscribers\<close>, its keys in insertion order (the order
  \<^verbatim>\<open>for ... in\<close> visits them). Of the socket \<^verbatim>\<open>_socket\<close> the state keeps the handlers
  that \<^verbatim>\<open>subscribe\<close> has registered with \<^verbatim>\<open>this._socket.on\<close> for the events
  \<^verbatim>\<open>subscribe\<close> and \<^verbatim>\<open>transactions\<close>. The handlers of one event are all the same closure
  over \<^verbatim>\<open>this\<close>, so their number is what is kept; no handler is ever removed. The
  handlers for \<^verbatim>\<open>reconnect_attempt\<close> and \<^verbatim>\<open>unsubscribe\<close> do not touch the fields of the
  client and are left out, as are the requests sent with \<^verbatim>\<open>emit\<close>.
\<close>

record feedClient =
  protocolOg :: bool
  items :: "feedItem list"
  existingIds :: "string list"
  subscriptionId :: "string option"
  subscribers :: "(string \<times> listener) list"
  subscribeHandlers :: nat
  transactionsHandlers :: nat

text \<open>The constructor.\<close>

definition newFeedClient :: "bool \<Rightarrow> feedClient" where
  "newFeedClient isOg =
     \<lparr>protocolOg = isOg, items = [], existingIds = [], subscriptionId = None,
      subscribers = [], subscribeHandlers = 0, transactionsHandlers = 0\<rparr>"

text \<open>
  \<^verbatim>\<open>subscribe\<close> stores the callback under a fresh id (\<^verbatim>\<open>sid\<close>, drawn by
  \<^verbatim>\<open>TrytesHelper.generateHash\<close>) and, when \<^verbatim>\<open>!this._subscriptionId\<close> holds (the id is
  undefined or the empty string), registers one more handler for each of the two events;
  \<^verbatim>\<open>unsubscribe\<close> deletes the callback and, in its \<^verbatim>\<open>finally\<close> block, clears the
  subscription id.
\<close>

definition noSubscriptionId :: "feedClient \<Rightarrow> bool" where
  "noSubscriptionId fc = (subscriptionId fc = None \<or> subscriptionId fc = Some [])"

definition subscribe :: "string \<Rightarrow> listener \<Rightarrow> feedClient \<Rightarrow> feedClient" where
  "subscribe sid callback fc =
     (let fc1 = fc\<lparr>subscribers := AList.update sid callback (subscribers fc)\<rparr>
      in if noSubscriptionId fc1
         then fc1\<lparr>subscribeHandlers := Suc (subscribeHandlers fc1),
                  transactionsHandlers := Suc (transactionsHandlers fc1)\<rparr>
         else fc1)"

definition unsubscribe :: "string \<Rightarrow> feedClient \<Rightarrow> feedClient" where
  "unsubscribe sid fc =
     fc\<lparr>subscribers := AList.delete sid (subscribers fc), subscriptionId := None\<rparr>"

text \<open>
  The object spread \<^verbatim>\<open>{...existing.metaData, ...update}\<close>: the old keys keep their places,
  the update's values overwrite, new keys follow.
\<close>

definition spread :: "metadata option \<Rightarrow> metadata \<Rightarrow> metadata" where
  "spread old upd =
     (let m = (case old of None \<Rightarrow> \<lparr>msOf = None, propsOf = []\<rparr> | Some m \<Rightarrow> m)
      in \<lparr>msOf = (case msOf upd of None \<Rightarrow> msOf m | Some n \<Rightarrow> Some n),
          propsOf = fold (\<lambda>(k, v). AList.update k v) (propsOf upd) (propsOf m)\<rparr>)"

text \<open>\<^verbatim>\<open>xs.find(P)\<close> followed by an assignment to a field of the object found.\<close>

fun updateFirst :: "('a \<Rightarrow> bool) \<Rightarrow> ('a \<Rightarrow> 'a) \<Rightarrow> 'a list \<Rightarrow> 'a list" where
  "updateFirst P f [] = []"
| "updateFirst P f (x # xs) = (if P x then f x # xs else x # updateFirst P f xs)"

definition mergeMetadata :: "itemsMetadata option \<Rightarrow> feedItem list \<Rightarrow> feedItem list" where
  "mergeMetadata mds its =
     (case mds of
        None \<Rightarrow> its
      | Some ms \<Rightarrow>
          fold (\<lambda>(metadataId, upd).
                  updateFirst (\<lambda>c. idOf c = metadataId)
                    (\<lambda>existing. existing\<lparr>metaData := Some (spread (metaData existing) upd)\<rparr>))
               ms its)"

text \<open>The filters of the retention block.\<close>

definition isZeroTx :: "feedItem \<Rightarrow> bool" where
  "isZeroTx t = (payloadType t = Some Transaction \<and> valueOf t = Some 0)"

definition isNonZeroTx :: "feedItem \<Rightarrow> bool" where
  "isNonZeroTx t =
     (payloadType t = Some Transaction \<and> valueOf t \<noteq> Some 0 \<and> valueOf t \<noteq> None)"

definition hasPayload :: "payloadType \<Rightarrow> feedItem \<Rightarrow> bool" where
  "hasPayload p t = (payloadType t = Some p)"

text \<open>
  One block of the retention code:
  \<^verbatim>\<open>const c = this._items.filter(P); const n = c.length - MIN_ITEMS_PER_TYPE;
  if (n > 0) { removeItems = removeItems.concat(c.slice(-n)); }\<close>
\<close>

definition toRemove :: "('a \<Rightarrow> bool) \<Rightarrow> 'a list \<Rightarrow> 'a list" where
  "toRemove P objs =
     (let c = filter P objs;
          toRemoveCount = int (length c) - int MIN_ITEMS_PER_TYPE
      in if toRemoveCount > 0 then drop (nat (int (length c) - toRemoveCount)) c else [])"

text \<open>
  The retention block. \<^verbatim>\<open>removeItems.includes(t)\<close> compares objects by identity, so every
  item is paired with its position in \<^verbatim>\<open>this._items\<close>: two items with equal fields stay
  two objects.
\<close>

definition retention :: "bool \<Rightarrow> feedItem list \<Rightarrow> feedItem list" where
  "retention isOg its =
     (let objs = enumerate 0 its;
          removeItems =
            (if isOg then
               [] @ toRemove (isZeroTx \<circ> snd) objs @ toRemove (isNonZeroTx \<circ> snd) objs
             else
               [] @ toRemove (hasPayload Transaction \<circ> snd) objs
                  @ toRemove (hasPayload Index \<circ> snd) objs
                  @ toRemove (hasPayload MS \<circ> snd) objs
                  @ toRemove (hasPayload NoPayload \<circ> snd) objs)
      in map snd (filter (\<lambda>t. t \<notin> set removeItems) objs))"

definition filteredNewItems ::
  "('r \<Rightarrow> feedItem) \<Rightarrow> feedClient \<Rightarrow> 'r subscriptionMessage \<Rightarrow> feedItem list" where
  "filteredNewItems convertItem fc msg =
     filter (\<lambda>nh. idOf nh \<notin> set (existingIds fc)) (map convertItem (msgItems msg))"

text \<open>
  The delivery loop \<^verbatim>\<open>for (const sub in this._subscribers) this._subscribers[sub](...)\<close>.
  It has no \<^verbatim>\<open>try\<close>: a call that throws ends the loop. The result lists the subscription
  ids called, in order, and tells whether an exception left the loop. The handler is an
  \<^verbatim>\<open>async\<close> function without \<^verbatim>\<open>await\<close>: it runs to its end when the socket calls it, and
  an exception that leaves it rejects its promise and goes no further.
\<close>

fun notify ::
  "(string \<times> listener) list \<Rightarrow> feedItem list \<Rightarrow> itemsMetadata option \<Rightarrow> string list \<times> bool" where
  "notify [] new mds = ([], False)"
| "notify ((sub, callback) # subs) new mds =
     (case callback new mds of
        Thrown \<Rightarrow> ([sub], True)
      | Returned \<Rightarrow> (let (called, thrown) = notify subs new mds in (sub # called, thrown)))"

text \<open>
  What one run of the handler leaves: the client, the batch handed to the listeners, the
  listeners called, and whether the handler ended by an exception.
\<close>

record delivery =
  client :: feedClient
  delivered :: "feedItem list"
  called :: "string list"
  thrown :: bool

definition onTransactions ::
  "('r \<Rightarrow> feedItem) \<Rightarrow> feedClient \<Rightarrow> 'r subscriptionMessage \<Rightarrow> delivery" where
  "onTransactions convertItem fc msg =
     (if Some (msgSubscriptionId msg) = subscriptionId fc then
        (let fc1 = fc\<lparr>items := mergeMetadata (msgItemsMetadata msg) (items fc)\<rparr>;
             new = filteredNewItems convertItem fc msg;
             fc2 = (if length new > 0 then
                      (let kept = retention (protocolOg fc1) (new @ items fc1)
                       in fc1\<lparr>items := kept, existingIds := map idOf kept\<rparr>)
                    else fc1);
             (cs, ex) = notify (subscribers fc2) new (msgItemsMetadata msg)
         in \<lparr>client = fc2, delivered = new, called = cs, thrown = ex\<rparr>)
      else \<lparr>client = fc, delivered = [], called = [], thrown = False\<rparr>)"

text \<open>
  The handler of the event \<^verbatim>\<open>subscribe\<close>, the server's answer to the subscribe request:
  \<^verbatim>\<open>if (!subscribeResponse.error) { this._subscriptionId = subscribeResponse.subscriptionId; }\<close>
\<close>

definition onSubscribe :: "bool \<Rightarrow> string \<Rightarrow> feedClient \<Rightarrow> feedClient" where
  "onSubscribe err sid fc = (if \<not> err then fc\<lparr>subscriptionId := Some sid\<rparr> else fc)"

text \<open>
  The socket hands an event to every handler registered for it, one after the other, in
  the order of their registration. For a message that is one run of the handler above per
  registered handler, each on the state the run before left; the result lists the runs.
\<close>

fun emitTransactions ::
  "('r \<Rightarrow> feedItem) \<Rightarrow> nat \<Rightarrow> feedClient \<Rightarrow> 'r subscriptionMessage \<Rightarrow> delivery list" where
  "emitTransactions convertItem 0 fc msg = []"
| "emitTransactions convertItem (Suc n) fc msg =
     (let d = onTransactions convertItem fc msg
      in d # emitTransactions convertItem n (client d) msg)"

definition onMessage ::
  "('r \<Rightarrow> feedItem) \<Rightarrow> feedClient \<Rightarrow> 'r subscriptionMessage \<Rightarrow> delivery list" where
  "onMessage convertItem fc msg = emitTransactions convertItem (transactionsHandlers fc) fc msg"

text \<open>
  The life of a client: calls of \<^verbatim>\<open>subscribe\<close> and \<^verbatim>\<open>unsubscribe\<close>, and the events
  \<^verbatim>\<open>subscribe\<close> and \<^verbatim>\<open>transactions\<close> arriving on the socket.
\<close>

datatype 'r event =
  Subscribe string listener
| Unsubscribe string
| SubscribeResponse bool string
| Transactions "'r subscriptionMessage"

fun step :: "('r \<Rightarrow> feedItem) \<Rightarrow> 'r event \<Rightarrow> feedClient \<Rightarrow> feedClient" where
  "step convertItem (Subscribe sid callback) fc = subscribe sid callback fc"
| "step convertItem (Unsubscribe sid) fc = unsubscribe sid fc"
| "step convertItem (SubscribeResponse err sid) fc =
     ((onSubscribe err sid) ^^ subscribeHandlers fc) fc"
| "step convertItem (Transactions msg) fc =
     (case onMessage convertItem fc msg of [] \<Rightarrow> fc | d # ds \<Rightarrow> client (last (d # ds)))"

definition run :: "('r \<Rightarrow> feedItem) \<Rightarrow> bool \<Rightarrow> 'r event list \<Rightarrow> feedClient" where
  "run convertItem isOg evs = fold (step convertItem) evs (newFeedClient isOg)"

text \<open>
  The categories the retention block trims, per protocol, and the set of objects it
  removes.
\<close>

definition categories :: "bool \<Rightarrow> (feedItem \<Rightarrow> bool) list" where
  "categories isOg =
     (if isOg then [isZeroTx, isNonZeroTx]
      else [hasPayload Transaction, hasPayload Index, hasPayload MS, hasPayload NoPayload])"

definition removeSet :: "bool \<Rightarrow> (nat \<times> feedItem) list \<Rightarrow> (nat \<times> feedItem) set" where
  "removeSet isOg objs =
     (if isOg then
        set (drop MIN_ITEMS_PER_TYPE (filter (isZeroTx \<circ> snd) objs))
        \<union> set (drop MIN_ITEMS_PER_TYPE (filter (isNonZeroTx \<circ> snd) objs))
      else
        set (drop MIN_ITEMS_PER_TYPE (filter (hasPayload Transaction \<circ> snd) objs))
        \<union> set (drop MIN_ITEMS_PER_TYPE (filter (hasPayload Index \<circ> snd) objs))
        \<union> set (drop MIN_ITEMS_PER_TYPE (filter (hasPayload MS \<circ> snd) objs))
        \<union> set (drop MIN_ITEMS_PER_TYPE (filter (hasPayload NoPayload \<circ> snd) objs)))"


section \<open>The graph container (\<^verbatim>\<open>Viva.Graph.graph\<close>)\<close>

text \<open>
  The visualizer keeps its nodes and links in a graph object of the vivagraphjs library,
  which the repository does not hold. The operations the visualizer calls are modelled
  here as the library implements them. The library stores the nodes in an object keyed by
  id (\<^verbatim>\<open>forEachNode\<close> visits the keys in insertion order) and every link, a pair
  \<^verbatim>\<open>(fromId, toId)\<close>, in one array of all links and in the array \<^verbatim>\<open>links\<close> of each of
  its end nodes, always in the order the links were added. So the state is the node table
  and the list of all links, and a node's \<^verbatim>\<open>links\<close> array is the sublist of the links
  that touch it. The visualizer adds at most one link per pair of ids, so a link is
  identified by its pair.
\<close>

type_synonym link = "string \<times> string"

record graph =
  nodes :: "(string \<times> nodeData) list"
  links :: "link list"

definition emptyGraph :: graph where
  "emptyGraph = \<lparr>nodes = [], links = []\<rparr>"

definition getNode :: "graph \<Rightarrow> string \<Rightarrow> nodeData option" where
  "getNode g n = map_of (nodes g) n"

text \<open>\<^verbatim>\<open>addNode(id, data)\<close>: a new node, or new data for the node that has the id.\<close>

definition addNode :: "string \<Rightarrow> nodeData \<Rightarrow> graph \<Rightarrow> graph" where
  "addNode n d g = g\<lparr>nodes := AList.update n d (nodes g)\<rparr>"

text \<open>
  \<^verbatim>\<open>addLink(fromId, toId)\<close>. The library would first create an end node that is missing;
  at both calls of the visualizer both nodes exist.
\<close>

definition addLink :: "string \<Rightarrow> string \<Rightarrow> graph \<Rightarrow> graph" where
  "addLink fromId toId g = g\<lparr>links := links g @ [(fromId, toId)]\<rparr>"

definition touches :: "string \<Rightarrow> link \<Rightarrow> bool" where
  "touches n l = (fst l = n \<or> snd l = n)"

text \<open>\<^verbatim>\<open>node.links\<close>\<close>

definition nodeLinks :: "graph \<Rightarrow> string \<Rightarrow> link list" where
  "nodeLinks g n = filter (touches n) (links g)"

text \<open>\<^verbatim>\<open>removeLink(link)\<close> splices the link out of the arrays that hold it.\<close>

definition removeLink :: "link \<Rightarrow> graph \<Rightarrow> graph" where
  "removeLink l g = g\<lparr>links := remove1 l (links g)\<rparr>"

text \<open>
  \<^verbatim>\<open>removeNode(id)\<close> removes every link left in the node's \<^verbatim>\<open>links\<close> array, then the
  node; it does nothing for an id that names no node.
\<close>

definition removeNode :: "string \<Rightarrow> graph \<Rightarrow> graph" where
  "removeNode n g =
     (case getNode g n of
        None \<Rightarrow> g
      | Some d \<Rightarrow> \<lparr>nodes = AList.delete n (nodes g),
                   links = filter (\<lambda>l. \<not> touches n l) (links g)\<rparr>)"

text \<open>The other end of a link of node \<^verbatim>\<open>n\<close>, as \<^verbatim>\<open>forEachLinkedNode\<close> computes it.\<close>

definition linkedNodeId :: "string \<Rightarrow> link \<Rightarrow> string" where
  "linkedNodeId n l = (if fst l = n then snd l else fst l)"

definition nodeIds :: "graph \<Rightarrow> string list" where
  "nodeIds g = map fst (nodes g)"

text \<open>
  What the library keeps true of every graph: one entry per node id, and both ends of
  every link are nodes.
\<close>

definition wellFormed :: "graph \<Rightarrow> bool" where
  "wellFormed g =
     (distinct (nodeIds g)
      \<and> (\<forall>l\<in>set (links g). fst l \<in> set (nodeIds g) \<and> snd l \<in> set (nodeIds g)))"

section \<open>Visualizer (\<^verbatim>\<open>Visualizer\<close> component)\<close>

text \<open>
  The fields of the component that the graph maintenance reads and writes, once
  \<^verbatim>\<open>setupGraph\<close> has created the graph and the renderer. \<^verbatim>\<open>existingIdsV\<close> is
  \<^verbatim>\<open>_existingIds\<close>, \<^verbatim>\<open>removeNodesQ\<close> is the queue \<^verbatim>\<open>_removeNodes\<close>; \<^verbatim>\<open>_msIndexToNode\<close> is
  an object keyed by milestone index; \<^verbatim>\<open>protocol\<close> is \<^verbatim>\<open>_networkConfig?.protocolVersion\<close>. Times are the milliseconds \<^verbatim>\<open>Date.now()\<close> returns;
  every call of \<^verbatim>\<open>Date.now()\<close> is a parameter of the function that makes it.
\<close>

record msEntry =
  msNodeId :: string
  lastSeen :: nat

type_synonym msIndex = "(nat \<times> msEntry) list"

datatype protocolVersion = Og | Chrysalis | OtherProtocol

record visualizer =
  protocol :: protocolVersion
  graph :: graph
  existingIdsV :: "string list"
  newItems :: "feedItem list"
  removeNodesQ :: "string list"
  msIndexToNode :: msIndex
  smallNetworkInterval :: nat

definition MAX_ITEMS :: nat where
  "MAX_ITEMS = 5000"

definition newVisualizer :: "protocolVersion \<Rightarrow> visualizer" where
  "newVisualizer p =
     \<lparr>protocol = p, graph = emptyGraph, existingIdsV = [], newItems = [], removeNodesQ = [],
      msIndexToNode = [], smallNetworkInterval = 0\<rparr>"

subsection \<open>Adding a batch (\<^verbatim>\<open>drawUpdates\<close>, the loop over the items)\<close>

text \<open>The node made for a parent that is not in the graph: \<^verbatim>\<open>{ id, confirmed: false }\<close>.\<close>

definition placeholder :: "string \<Rightarrow> nat \<Rightarrow> nodeData" where
  "placeholder p now =
     \<lparr>feedItem = \<lparr>idOf = p, valueOf = None, parent1 = [], parent2 = [], metaData = None,
                   payloadType = None, confirmed = False\<rparr>,
      added = now, graphId = None\<rparr>"

text \<open>The block the loop runs for \<^verbatim>\<open>parent1\<close> and again for \<^verbatim>\<open>parent2\<close>.\<close>

definition linkParent ::
  "nat \<Rightarrow> string \<Rightarrow> string \<Rightarrow> graph \<times> string list \<Rightarrow> graph \<times> string list" where
  "linkParent now parent child s =
     (let (g, addedIds) = s;
          (g1, a1) = (if getNode g parent = None
                      then (addNode parent (placeholder parent now) g, addedIds @ [parent])
                      else (g, addedIds))
      in (addLink parent child g1, a1))"

definition drawItem :: "nat \<Rightarrow> feedItem \<Rightarrow> graph \<times> string list \<Rightarrow> graph \<times> string list" where
  "drawItem now item s =
     (let (g, addedIds) = s in
      case getNode g (idOf item) of
        Some existingNode \<Rightarrow> (g, addedIds)
      | None \<Rightarrow>
          (let s1 = (addNode (idOf item) \<lparr>feedItem = item, added = now, graphId = None\<rparr> g,
                     addedIds @ [idOf item]);
               s2 = (if parent1 item \<noteq> [] then linkParent now (parent1 item) (idOf item) s1
                     else s1);
               s3 = (if parent2 item \<noteq> [] \<and> parent1 item \<noteq> parent2 item
                     then linkParent now (parent2 item) (idOf item) s2
                     else s2)
           in s3))"

definition drawItems :: "nat \<Rightarrow> feedItem list \<Rightarrow> graph \<Rightarrow> graph \<times> string list" where
  "drawItems now its g = fold (drawItem now) its (g, [])"

subsection \<open>The cap (\<^verbatim>\<open>drawUpdates\<close>, the loop over \<^verbatim>\<open>_existingIds\<close>)\<close>

text \<open>
  \<^verbatim>\<open>while (this._existingIds.length > MAX_ITEMS) { const n = this._existingIds.shift();
  if (n && !added.includes(n)) { this._removeNodes.push(n); } }\<close>
\<close>

fun evict :: "string list \<Rightarrow> string list \<Rightarrow> string list \<Rightarrow> string list \<times> string list" where
  "evict addedIds [] q = ([], q)"
| "evict addedIds (nodeToRemove # ids) q =
     (if length (nodeToRemove # ids) > MAX_ITEMS
      then evict addedIds ids
             (if nodeToRemove \<noteq> [] \<and> nodeToRemove \<notin> set addedIds then q @ [nodeToRemove] else q)
      else (nodeToRemove # ids, q))"

subsection \<open>Removing nodes (\<^verbatim>\<open>removeNodes\<close>)\<close>

text \<open>
  \<^verbatim>\<open>forEachLinkedNode(nodeToRemove, callback)\<close> with the callback of \<^verbatim>\<open>removeNodes\<close>. The
  library walks the node's own \<^verbatim>\<open>links\<close> array by index
  (\<^verbatim>\<open>for (i = 0; i < links.length; ++i)\<close>) while the callback splices links out of that
  array, so the walk is on the array as it is at each step. The callback receives
  \<^verbatim>\<open>nodes[linkedNodeId]\<close>; reading \<^verbatim>\<open>links\<close> of \<^verbatim>\<open>undefined\<close> is a TypeError, the result
  \<^verbatim>\<open>None\<close>.
\<close>

lemma length_nodeLinks_removeLink:
  "length (nodeLinks (removeLink l g) n) \<le> length (nodeLinks g n)"
proof -
  have "length (filter P (remove1 l xs)) \<le> length (filter P xs)" for P and xs :: "link list"
    by (induction xs) auto
  then show ?thesis by (simp add: nodeLinks_def removeLink_def)
qed

lemma length_nodeLinks_removeNode:
  "length (nodeLinks (removeNode m g) n) \<le> length (nodeLinks g n)"
proof -
  have "length (filter P (filter Q xs)) \<le> length (filter P xs)" for P Q and xs :: "link list"
    by (induction xs) auto
  then show ?thesis by (simp add: nodeLinks_def removeNode_def split: option.splits)
qed

function removeLinked ::
  "string \<Rightarrow> nat \<Rightarrow> graph \<times> msIndex \<Rightarrow> (graph \<times> msIndex) option" where
  "removeLinked nodeToRemove i (g, ms) =
     (if i < length (nodeLinks g nodeToRemove) then
        (let link = nodeLinks g nodeToRemove ! i;
             linkedId = linkedNodeId nodeToRemove link
         in case getNode g linkedId of
              None \<Rightarrow> None
            | Some linkedNode \<Rightarrow>
                (let g1 = removeLink link g in
                 if length (nodeLinks g1 linkedId) = 0 then
                   removeLinked nodeToRemove (Suc i)
                     (removeNode linkedId g1,
                      case metaMS (feedItem linkedNode) of
                        None \<Rightarrow> ms
                      | Some k \<Rightarrow> if k \<noteq> 0 then AList.delete k ms else ms)
                 else removeLinked nodeToRemove (Suc i) (g1, ms)))
      else Some (g, ms))"
  by pat_completeness auto
termination
proof (relation "measure (\<lambda>(n, i, g, ms). length (nodeLinks g n) - i)")
  show "wf (measure (\<lambda>(n, i, g, ms). length (nodeLinks g n) - i))"
    by simp
next
  fix nodeToRemove :: string and i :: nat and g :: graph and ms :: msIndex and link linkedId
    and linkedNode :: nodeData and g1
  assume i: "i < length (nodeLinks g nodeToRemove)" and g1: "g1 = removeLink link g"
  have "length (nodeLinks (removeNode linkedId g1) nodeToRemove) \<le> length (nodeLinks g nodeToRemove)"
    unfolding g1
    by (rule order_trans [OF length_nodeLinks_removeNode length_nodeLinks_removeLink])
  then show "((nodeToRemove, Suc i, removeNode linkedId g1,
               case metaMS (feedItem linkedNode) of None \<Rightarrow> ms
               | Some k \<Rightarrow> if k \<noteq> 0 then AList.delete k ms else ms),
              nodeToRemove, i, g, ms)
             \<in> measure (\<lambda>(n, i, g, ms). length (nodeLinks g n) - i)"
    using i by simp
next
  fix nodeToRemove :: string and i :: nat and g :: graph and ms :: msIndex and link linkedId
    and linkedNode :: nodeData and g1
  assume i: "i < length (nodeLinks g nodeToRemove)" and g1: "g1 = removeLink link g"
  have "length (nodeLinks g1 nodeToRemove) \<le> length (nodeLinks g nodeToRemove)"
    unfolding g1 by (rule length_nodeLinks_removeLink)
  then show "((nodeToRemove, Suc i, g1, ms), nodeToRemove, i, g, ms)
             \<in> measure (\<lambda>(n, i, g, ms). length (nodeLinks g n) - i)"
    using i by simp
qed

text \<open>
  The loop of \<^verbatim>\<open>removeNodes\<close> over the queue. After \<^verbatim>\<open>removeNode(nodeToRemove)\<close> the code
  looks the removed node up again (\<^verbatim>\<open>getNode(nodeToRemove)\<close>) to clear its milestone entry.
\<close>

fun removeNodesLoop :: "string list \<Rightarrow> graph \<times> msIndex \<Rightarrow> (graph \<times> msIndex) option" where
  "removeNodesLoop [] s = Some s"
| "removeNodesLoop (nodeToRemove # q) (g, ms) =
     (if nodeToRemove \<noteq> [] then
        (case (case getNode g nodeToRemove of
                 None \<Rightarrow> Some (g, ms)
               | Some node \<Rightarrow> removeLinked nodeToRemove 0 (g, ms)) of
           None \<Rightarrow> None
         | Some (g1, ms1) \<Rightarrow>
             (let g2 = removeNode nodeToRemove g1;
                  ms2 = (case getNode g2 nodeToRemove of
                           None \<Rightarrow> ms1
                         | Some removedNode \<Rightarrow>
                             (case metaMS (feedItem removedNode) of
                                None \<Rightarrow> ms1
                              | Some k \<Rightarrow> if k \<noteq> 0 then AList.delete k ms1 else ms1))
              in removeNodesLoop q (g2, ms2)))
      else removeNodesLoop q (g, ms))"

definition removeNodes :: "visualizer \<Rightarrow> visualizer option" where
  "removeNodes v =
     (case removeNodesLoop (removeNodesQ v) (graph v, msIndexToNode v) of
        None \<Rightarrow> None
      | Some (g, ms) \<Rightarrow> Some (v\<lparr>graph := g, msIndexToNode := ms, removeNodesQ := []\<rparr>))"

subsection \<open>One batch up to the end of the draining (\<^verbatim>\<open>drawUpdates\<close>)\<close>

text \<open>
  \<^verbatim>\<open>Math.ceil(n / 50)\<close> of the pending items are consumed; for a whole number \<^verbatim>\<open>n\<close> that is
  \<^verbatim>\<open>(n + 49) div 50\<close>.
\<close>

definition drawBatch :: "nat \<Rightarrow> visualizer \<Rightarrow> visualizer option" where
  "drawBatch now v =
     (let consumeLength = (length (newItems v) + 49) div 50;
          its = take consumeLength (newItems v);
          (g, addedIds) = drawItems now its (graph v);
          (ids, q) = evict addedIds (existingIdsV v @ addedIds) (removeNodesQ v)
      in removeNodes (v\<lparr>graph := g, newItems := drop consumeLength (newItems v),
                         existingIdsV := ids, removeNodesQ := q\<rparr>))"

subsection \<open>Milestones (\<^verbatim>\<open>highlightMilestones\<close>)\<close>

text \<open>
  \<^verbatim>\<open>node.data.feedItem.metaData = node.data.feedItem.metaData ?? {};
  node.data.feedItem.metaData.MS = msIndex\<close>
\<close>

definition setMS :: "nat \<Rightarrow> nodeData \<Rightarrow> nodeData" where
  "setMS k d =
     d\<lparr>feedItem := (feedItem d)\<lparr>metaData :=
          Some ((case metaData (feedItem d) of
                   None \<Rightarrow> \<lparr>msOf = None, propsOf = []\<rparr>
                 | Some m \<Rightarrow> m)\<lparr>msOf := Some k\<rparr>)\<rparr>\<rparr>"

fun highlightLoop ::
  "nat \<Rightarrow> nat list \<Rightarrow> graph \<times> msIndex \<times> nat list \<Rightarrow> graph \<times> msIndex \<times> nat list" where
  "highlightLoop now [] s = s"
| "highlightLoop now (k # keys) (g, ms, toRemoveKeys) =
     (case map_of ms k of
        None \<Rightarrow> highlightLoop now keys (g, ms, toRemoveKeys)
      | Some e \<Rightarrow>
          (case getNode g (msNodeId e) of
             Some d \<Rightarrow>
               highlightLoop now keys
                 (addNode (msNodeId e) (setMS k d) g,
                  AList.update k (e\<lparr>lastSeen := now\<rparr>) ms, toRemoveKeys)
           | None \<Rightarrow>
               if int now - int (lastSeen e) > 300000
               then highlightLoop now keys (g, ms, toRemoveKeys @ [k])
               else highlightLoop now keys (g, ms, toRemoveKeys)))"

text \<open>
  \<^verbatim>\<open>Object.keys\<close> of an object keyed by numbers lists the keys in ascending order. The
  first case of the loop cannot arise: the keys are those of the object.
\<close>

definition highlightMilestones :: "nat \<Rightarrow> visualizer \<Rightarrow> visualizer" where
  "highlightMilestones now v =
     (let (g, ms, toRemoveKeys) =
            highlightLoop now (sort (map fst (msIndexToNode v))) (graph v, msIndexToNode v, [])
      in v\<lparr>graph := g, msIndexToNode := fold AList.delete toRemoveKeys ms\<rparr>)"

text \<open>
  For stating what a pass does: an entry is stale when its \<^verbatim>\<open>lastSeen\<close> is more than
  300000 ms before the pass; the entries as a pass over the keys \<^verbatim>\<open>keys\<close> leaves them before
  the deletions, and the keys it deletes.
\<close>

definition stale :: "nat \<Rightarrow> msEntry \<Rightarrow> bool" where
  "stale now e = (int now - int (lastSeen e) > 300000)"

definition refreshed :: "nat \<Rightarrow> graph \<Rightarrow> nat list \<Rightarrow> msIndex \<Rightarrow> nat \<Rightarrow> msEntry option" where
  "refreshed now g keys ms k =
     (case map_of ms k of
        None \<Rightarrow> None
      | Some e \<Rightarrow> if k \<in> set keys \<and> getNode g (msNodeId e) \<noteq> None
                  then Some (e\<lparr>lastSeen := now\<rparr>) else Some e)"

definition expired :: "nat \<Rightarrow> graph \<Rightarrow> nat list \<Rightarrow> msIndex \<Rightarrow> nat set" where
  "expired now g keys ms =
     {j \<in> set keys. \<exists>e. map_of ms j = Some e \<and> getNode g (msNodeId e) = None \<and> stale now e}"

subsection \<open>Small networks (\<^verbatim>\<open>calculateSubGraph\<close>, \<^verbatim>\<open>removeSmallNetworks\<close>)\<close>

text \<open>\<^verbatim>\<open>node.data.graphId\<close> as a condition: \<^verbatim>\<open>undefined\<close> and \<^verbatim>\<open>0\<close> are falsy.\<close>

definition hasGraphId :: "nodeData \<Rightarrow> bool" where
  "hasGraphId d = (case graphId d of None \<Rightarrow> False | Some k \<Rightarrow> k \<noteq> 0)"

text \<open>
  \<^verbatim>\<open>forEachLinkedNode(nodeId, callback)\<close> with the callback of \<^verbatim>\<open>calculateSubGraph\<close>: a
  linked node that has no graph id and is not in \<^verbatim>\<open>nodesToVisit\<close> is pushed. The callback
  reads \<^verbatim>\<open>linkedNode.data\<close>; for a link whose other end is no node that is a TypeError.
\<close>

fun visitLinked :: "graph \<Rightarrow> string \<Rightarrow> link list \<Rightarrow> string list \<Rightarrow> string list option" where
  "visitLinked g nodeId [] nodesToVisit = Some nodesToVisit"
| "visitLinked g nodeId (l # ls) nodesToVisit =
     (case getNode g (linkedNodeId nodeId l) of
        None \<Rightarrow> None
      | Some linkedNode \<Rightarrow>
          visitLinked g nodeId ls
            (if \<not> hasGraphId linkedNode \<and> linkedNodeId nodeId l \<notin> set nodesToVisit
             then nodesToVisit @ [linkedNodeId nodeId l] else nodesToVisit))"

definition unmarked :: "graph \<Rightarrow> nat" where
  "unmarked g = length (filter (\<lambda>e. \<not> hasGraphId (snd e)) (nodes g))"

lemma unmarked_addNode:
  assumes "getNode g n = Some d" and "\<not> hasGraphId d" and "hasGraphId d'"
  shows "unmarked (addNode n d' g) < unmarked g"
proof -
  have "map_of xs n = Some d \<Longrightarrow>
        length (filter (\<lambda>e. \<not> hasGraphId (snd e)) (AList.update n d' xs))
        < length (filter (\<lambda>e. \<not> hasGraphId (snd e)) xs)" for xs
    using assms(2,3) by (induction xs) (auto split: if_splits)
  then show ?thesis using assms(1) by (simp add: unmarked_def addNode_def getNode_def)
qed

text \<open>
  The loop of \<^verbatim>\<open>calculateSubGraph\<close>. The graph id is the counter of \<^verbatim>\<open>removeSmallNetworks\<close>
  after its increment, a positive number; the loop takes its predecessor \<^verbatim>\<open>k\<close> and marks
  with \<^verbatim>\<open>Suc k\<close>.
\<close>

function subGraphLoop ::
  "nat \<Rightarrow> graph \<Rightarrow> string list \<Rightarrow> string list \<Rightarrow> nat \<Rightarrow> (graph \<times> string list \<times> nat) option" where
  "subGraphLoop k g [] nodesVisited mrc0 = Some (g, nodesVisited, mrc0)"
| "subGraphLoop k g (nodeId # nodesToVisit) nodesVisited mrc0 =
     (if nodeId \<noteq> [] then
        (case getNode g nodeId of
           None \<Rightarrow> subGraphLoop k g nodesToVisit (nodesVisited @ [nodeId]) mrc0
         | Some d \<Rightarrow>
             if \<not> hasGraphId d then
               (let g1 = addNode nodeId (d\<lparr>graphId := Some (Suc k)\<rparr>) g;
                    mrc = (if added d > mrc0 then added d else mrc0)
                in case visitLinked g1 nodeId (nodeLinks g1 nodeId) nodesToVisit of
                     None \<Rightarrow> None
                   | Some toVisit \<Rightarrow> subGraphLoop k g1 toVisit (nodesVisited @ [nodeId]) mrc)
             else subGraphLoop k g nodesToVisit (nodesVisited @ [nodeId]) mrc0)
      else subGraphLoop k g nodesToVisit nodesVisited mrc0)"
  by pat_completeness auto
termination
proof (relation "measures [\<lambda>(k, g, q, vs, m). unmarked g, \<lambda>(k, g, q, vs, m). length q]")
  show "wf (measures [\<lambda>(k, g, q, vs, m). unmarked g, \<lambda>(k, g, q, vs, m). length q])"
    by simp
next
  fix k :: nat and g :: graph and nodeId :: string and nodesToVisit nodesVisited :: "string list"
    and mrc0 :: nat and d :: nodeData and g1 mrc toVisit
  assume "getNode g nodeId = Some d" and "\<not> hasGraphId d"
    and "g1 = addNode nodeId (d\<lparr>graphId := Some (Suc k)\<rparr>) g"
  then have "unmarked g1 < unmarked g"
    by (simp add: unmarked_addNode hasGraphId_def)
  then show "((k, g1, toVisit, nodesVisited @ [nodeId], mrc),
              k, g, nodeId # nodesToVisit, nodesVisited, mrc0)
             \<in> measures [\<lambda>(k, g, q, vs, m). unmarked g, \<lambda>(k, g, q, vs, m). length q]"
    by simp
qed auto

record subGraph =
  sgNodes :: "string list"
  mostRecentChange :: nat

definition calculateSubGraph :: "graph \<Rightarrow> string \<Rightarrow> nat \<Rightarrow> (graph \<times> subGraph) option" where
  "calculateSubGraph g startNodeId k =
     (case subGraphLoop k g [startNodeId] [] 0 of
        None \<Rightarrow> None
      | Some (g', nodesVisited, mrc) \<Rightarrow>
          Some (g', \<lparr>sgNodes = nodesVisited, mostRecentChange = mrc\<rparr>))"

text \<open>The first \<^verbatim>\<open>forEachNode\<close> of a pass: \<^verbatim>\<open>node.data.graphId = undefined\<close>.\<close>

definition clearGraphIds :: "graph \<Rightarrow> graph" where
  "clearGraphIds g = g\<lparr>nodes := map (\<lambda>(n, d). (n, d\<lparr>graphId := None\<rparr>)) (nodes g)\<rparr>"

text \<open>
  The second \<^verbatim>\<open>forEachNode\<close>, over the keys the node table has when the loop starts:
  a node without a graph id starts the next sub graph.
\<close>

fun discover ::
  "string list \<Rightarrow> graph \<times> nat \<times> subGraph list \<Rightarrow> (graph \<times> nat \<times> subGraph list) option" where
  "discover [] s = Some s"
| "discover (n # ns) (g, gid, subGraphs) =
     (case getNode g n of
        None \<Rightarrow> discover ns (g, gid, subGraphs)
      | Some d \<Rightarrow>
          if \<not> hasGraphId d then
            (case calculateSubGraph g n gid of
               None \<Rightarrow> None
             | Some (g1, nodesInGraph) \<Rightarrow>
                 discover ns (g1, Suc gid, subGraphs @ [nodesInGraph]))
          else discover ns (g, gid, subGraphs))"

text \<open>
  The test of a sub graph. \<^verbatim>\<open>nodes.length < this._existingIds.length * 0.03\<close> compares a
  whole number with a product in floating point; for lengths that a double holds exactly
  it is the comparison \<^verbatim>\<open>100 * nodes.length < 3 * this._existingIds.length\<close> of whole
  numbers (\<^verbatim>\<open>0.03\<close> as a double is below 3/100 by less than one part in \<^verbatim>\<open>10^17\<close>, and the
  rounded product reaches a whole number only from below).
\<close>

definition isSmall :: "nat \<Rightarrow> nat \<Rightarrow> subGraph \<Rightarrow> bool" where
  "isSmall now len sg =
     (100 * length (sgNodes sg) < 3 * len \<and> int now - int (mostRecentChange sg) > 60000)"

text \<open>One turn of the \<^verbatim>\<open>do ... while (removed)\<close> loop; the result carries \<^verbatim>\<open>removed\<close>.\<close>

definition smallNetworksPass :: "nat \<Rightarrow> visualizer \<Rightarrow> (bool \<times> visualizer) option" where
  "smallNetworksPass now v =
     (let g0 = clearGraphIds (graph v) in
      case discover (nodeIds g0) (g0, 0, []) of
        None \<Rightarrow> None
      | Some (g1, gid, subGraphs) \<Rightarrow>
          (let small = filter (isSmall now (length (existingIdsV v))) subGraphs;
               removed = (small \<noteq> []);
               v1 = v\<lparr>graph := g1, removeNodesQ := removeNodesQ v @ concat (map sgNodes small)\<rparr>
           in if removed then
                (case removeNodes v1 of None \<Rightarrow> None | Some v2 \<Rightarrow> Some (True, v2))
              else Some (False, v1)))"

partial_function (option) removeSmallNetworks :: "nat \<Rightarrow> visualizer \<Rightarrow> visualizer option" where
  "removeSmallNetworks now v =
     (case smallNetworksPass now v of
        None \<Rightarrow> None
      | Some (removed, v') \<Rightarrow> if removed then removeSmallNetworks now v' else Some v')"

text \<open>
  \<^verbatim>\<open>drawUpdates\<close>: a batch, then every hundredth time the small networks
  (\<^verbatim>\<open>this._smallNetworkInterval++ % 100 === 0\<close>). \<^verbatim>\<open>now\<close> is the time read at the start of the
  batch, \<^verbatim>\<open>now2\<close> the time \<^verbatim>\<open>removeSmallNetworks\<close> reads.
\<close>

definition drawUpdates :: "nat \<Rightarrow> nat \<Rightarrow> visualizer \<Rightarrow> visualizer option" where
  "drawUpdates now now2 v =
     (if length (newItems v) > 0 then
        (case drawBatch now v of
           None \<Rightarrow> None
         | Some v1 \<Rightarrow>
             (let v2 = v1\<lparr>smallNetworkInterval := Suc (smallNetworkInterval v1)\<rparr>
              in if smallNetworkInterval v1 mod 100 = 0 then removeSmallNetworks now2 v2
                 else Some v2))
      else Some v)"

subsection \<open>The other entry points and the life of the component\<close>

text \<open>
  \<^verbatim>\<open>itemsUpdated\<close> appends the new items to the pending ones and, on a chrysalis network,
  records every pending milestone and runs \<^verbatim>\<open>highlightMilestones\<close> when there was one;
  \<^verbatim>\<open>milestonesUpdated\<close> does the same for the milestones an og network reports;
  \<^verbatim>\<open>confirmedUpdated\<close> sets the flag of the nodes named. The calls of \<^verbatim>\<open>Date.now()\<close>
  inside one loop read one time.
\<close>

definition recordMilestone :: "nat \<Rightarrow> feedItem \<Rightarrow> msIndex \<Rightarrow> msIndex" where
  "recordMilestone now message ms =
     (case metaMS message of
        None \<Rightarrow> ms
      | Some k \<Rightarrow> if k \<noteq> 0 then AList.update k \<lparr>msNodeId = idOf message, lastSeen = now\<rparr> ms
                  else ms)"

definition itemsUpdated :: "feedItem list \<Rightarrow> nat \<Rightarrow> nat \<Rightarrow> visualizer \<Rightarrow> visualizer" where
  "itemsUpdated its now now2 v =
     (let v1 = v\<lparr>newItems := newItems v @ its\<rparr> in
      if protocol v = Chrysalis then
        (let v2 = v1\<lparr>msIndexToNode := fold (recordMilestone now) (newItems v1) (msIndexToNode v1)\<rparr>
         in if \<exists>message\<in>set (newItems v1). hasMS message then highlightMilestones now2 v2
            else v2)
      else v1)"

definition milestonesUpdated :: "(string \<times> nat) list \<Rightarrow> nat \<Rightarrow> nat \<Rightarrow> visualizer \<Rightarrow> visualizer" where
  "milestonesUpdated milestones now now2 v =
     (if protocol v = Og then
        highlightMilestones now2
          (v\<lparr>msIndexToNode :=
                fold (\<lambda>(i, milestoneIndex). AList.update milestoneIndex \<lparr>msNodeId = i, lastSeen = now\<rparr>)
                  milestones (msIndexToNode v)\<rparr>)
      else v)"

definition setConfirmed :: "string \<Rightarrow> graph \<Rightarrow> graph" where
  "setConfirmed sn g =
     (case getNode g sn of
        None \<Rightarrow> g
      | Some d \<Rightarrow> addNode sn (d\<lparr>feedItem := (feedItem d)\<lparr>confirmed := True\<rparr>\<rparr>) g)"

definition confirmedUpdated :: "string list \<Rightarrow> visualizer \<Rightarrow> visualizer" where
  "confirmedUpdated confirmedIds v = v\<lparr>graph := fold setConfirmed confirmedIds (graph v)\<rparr>"

datatype vevent =
  ItemsUpdated "feedItem list" nat nat
| MilestonesUpdated "(string \<times> nat) list" nat nat
| ConfirmedUpdated "string list"
| DrawUpdates nat nat

fun stepV :: "vevent \<Rightarrow> visualizer \<Rightarrow> visualizer option" where
  "stepV (ItemsUpdated its now now2) v = Some (itemsUpdated its now now2 v)"
| "stepV (MilestonesUpdated milestones now now2) v = Some (milestonesUpdated milestones now now2 v)"
| "stepV (ConfirmedUpdated confirmedIds) v = Some (confirmedUpdated confirmedIds v)"
| "stepV (DrawUpdates now now2) v = drawUpdates now now2 v"

fun runV :: "vevent list \<Rightarrow> visualizer \<Rightarrow> visualizer option" where
  "runV [] v = Some v"
| "runV (ev # evs) v = (case stepV ev v of None \<Rightarrow> None | Some v' \<Rightarrow> runV evs v')"

section \<open>Connected components\<close>

text \<open>
  The notions the properties of the pruning are stated with. Two nodes are adjacent when
  a link joins them, in either direction; the component of a node is what can be reached
  from it over adjacent nodes. A component is small, at a time and for a total, when it has
  fewer members than 3% of the total and its most recent member was added more than
  60000 ms before.
\<close>

definition adjacent :: "graph \<Rightarrow> (string \<times> string) set" where
  "adjacent g = {(a, b). (a, b) \<in> set (links g) \<or> (b, a) \<in> set (links g)}"

definition component :: "graph \<Rightarrow> string \<Rightarrow> string set" where
  "component g n = {m. (n, m) \<in> (adjacent g)\<^sup>*}"

definition addedOf :: "graph \<Rightarrow> string \<Rightarrow> nat" where
  "addedOf g n = (case getNode g n of None \<Rightarrow> 0 | Some d \<Rightarrow> added d)"

definition mostRecent :: "graph \<Rightarrow> string set \<Rightarrow> nat" where
  "mostRecent g C = Max (addedOf g ` C)"

definition smallComponent :: "nat \<Rightarrow> nat \<Rightarrow> graph \<Rightarrow> string set \<Rightarrow> bool" where
  "smallComponent now len g C =
     (100 * card C < 3 * len \<and> int now - int (mostRecent g C) > 60000)"

text \<open>
  The nodes a pass of \<^verbatim>\<open>removeSmallNetworks\<close> is to remove: those whose component is small
  for the length of \<^verbatim>\<open>_existingIds\<close>.
\<close>

definition prunable :: "nat \<Rightarrow> visualizer \<Rightarrow> string set" where
  "prunable now v =
     {n \<in> set (nodeIds (graph v)).
        smallComponent now (length (existingIdsV v)) (graph v) (component (graph v) n)}"

text \<open>The graph without the nodes of a set and without the links that touch it.\<close>

definition without :: "string set \<Rightarrow> graph \<Rightarrow> graph" where
  "without K g =
     \<lparr>nodes = filter (\<lambda>e. fst e \<notin> K) (nodes g),
      links = filter (\<lambda>l. fst l \<notin> K \<and> snd l \<notin> K) (links g)\<rparr>"

definition markedSet :: "graph \<Rightarrow> string set" where
  "markedSet g = {n. \<exists>d. getNode g n = Some d \<and> hasGraphId d}"

text \<open>A set of nodes that no link leaves.\<close>

definition closedSet :: "graph \<Rightarrow> string set \<Rightarrow> bool" where
  "closedSet g K = (\<forall>a b. a \<in> K \<and> (a, b) \<in> adjacent g \<longrightarrow> b \<in> K)"

text \<open>A sub graph record that describes a component of the graph.\<close>

definition isComponent :: "graph \<Rightarrow> subGraph \<Rightarrow> bool" where
  "isComponent g sg =
     ((\<exists>s\<in>set (nodeIds g). set (sgNodes sg) = component g s)
      \<and> distinct (sgNodes sg)
      \<and> mostRecentChange sg = mostRecent g (set (sgNodes sg)))"

section \<open>The cap, stated\<close>

text \<open>
  While a batch is drawn: the graph is well formed, its node ids are those it had before
  the batch followed by the ids added, and no node has the empty id.
\<close>

definition batchInv :: "graph \<Rightarrow> graph \<times> string list \<Rightarrow> bool" where
  "batchInv g0 s =
     (wellFormed (fst s) \<and> nodeIds (fst s) = nodeIds g0 @ snd s
      \<and> [] \<notin> set (nodeIds (fst s)))"


text \<open>
  Between two calls: the graph is well formed, every node id is in \<^verbatim>\<open>_existingIds\<close>, which
  holds at most \<^verbatim>\<open>MAX_ITEMS\<close> ids, nothing is queued for removal, and no node and no
  pending item has the empty id.
\<close>

definition capInvariant :: "visualizer \<Rightarrow> bool" where
  "capInvariant v =
     (wellFormed (graph v) \<and> [] \<notin> set (nodeIds (graph v))
      \<and> set (nodeIds (graph v)) \<subseteq> set (existingIdsV v)
      \<and> length (existingIdsV v) \<le> MAX_ITEMS
      \<and> removeNodesQ v = []
      \<and> (\<forall>item\<in>set (newItems v). idOf item \<noteq> []))"

text \<open>The list \<^verbatim>\<open>added\<close> of the batch that \<^verbatim>\<open>drawUpdates\<close> would draw at time \<^verbatim>\<open>now\<close>.\<close>

definition batchAdded :: "nat \<Rightarrow> visualizer \<Rightarrow> string list" where
  "batchAdded now v =
     snd (drawItems now (take ((length (newItems v) + 49) div 50) (newItems v)) (graph v))"

text \<open>
  A call fits when the items it brings have ids that are not empty and the batch it draws
  adds at most \<^verbatim>\<open>MAX_ITEMS\<close> ids; a sequence of calls is admissible from a state when every
  call fits the state it meets. Whether a call returns is not part of the condition.
\<close>

fun fits :: "vevent \<Rightarrow> visualizer \<Rightarrow> bool" where
  "fits (ItemsUpdated its now now2) v = (\<forall>item\<in>set its. idOf item \<noteq> [])"
| "fits (MilestonesUpdated milestones now now2) v = True"
| "fits (ConfirmedUpdated confirmedIds) v = True"
| "fits (DrawUpdates now now2) v = (length (batchAdded now v) \<le> MAX_ITEMS)"

fun admissible :: "vevent list \<Rightarrow> visualizer \<Rightarrow> bool" where
  "admissible [] v = True"
| "admissible (ev # evs) v =
     (fits ev v \<and> (case stepV ev v of None \<Rightarrow> True | Some v' \<Rightarrow> admissible evs v'))"

section \<open>Concrete inputs\<close>

text \<open>Items, bursts and listeners used to run the definitions on concrete inputs.\<close>

definition zeroTx :: "string \<Rightarrow> feedItem" where
  "zeroTx i = \<lparr>idOf = i, valueOf = Some 0, parent1 = [], parent2 = [], metaData = None,
               payloadType = Some Transaction, confirmed = False\<rparr>"

definition burstOf :: "nat \<Rightarrow> feedItem list" where
  "burstOf n = map (\<lambda>k. zeroTx (CHR ''b'' # replicate k CHR ''a'')) [0..<n]"

definition indexItem :: "string \<Rightarrow> feedItem" where
  "indexItem i = \<lparr>idOf = i, valueOf = None, parent1 = [], parent2 = [], metaData = None,
               payloadType = Some Index, confirmed = False\<rparr>"

definition quiet :: listener where
  "quiet new mds = Returned"


definition txItem :: "string \<Rightarrow> int \<Rightarrow> string \<Rightarrow> string \<Rightarrow> bool \<Rightarrow> feedItem" where
  "txItem i v p1 p2 c =
     \<lparr>idOf = i, valueOf = Some v, parent1 = p1, parent2 = p2, metaData = None,
      payloadType = Some Transaction, confirmed = c\<rparr>"

definition msItem :: "string \<Rightarrow> nat \<Rightarrow> feedItem" where
  "msItem i k =
     \<lparr>idOf = i, valueOf = None, parent1 = [], parent2 = [],
      metaData = Some \<lparr>msOf = Some k, propsOf = []\<rparr>, payloadType = Some MS,
      confirmed = False\<rparr>"

definition milestoneOnly :: visualizer where
  "milestoneOnly =
     \<lparr>protocol = Chrysalis,
      graph = \<lparr>nodes = [(''M'', \<lparr>feedItem = msItem ''M'' 7, added = 10, graphId = None\<rparr>)],
               links = []\<rparr>,
      existingIdsV = [''M''], newItems = [], removeNodesQ = [''M''],
      msIndexToNode = [(7, \<lparr>msNodeId = ''M'', lastSeen = 10\<rparr>)], smallNetworkInterval = 1\<rparr>"

definition parentOfTwo :: visualizer where
  "parentOfTwo =
     \<lparr>protocol = Og,
      graph = fst (drawItems 10 [txItem ''A'' 0 [] [] False, txItem ''B'' 0 ''A'' [] False,
                                 txItem ''C'' 0 ''A'' [] False] emptyGraph),
      existingIdsV = [''A'', ''B'', ''C''], newItems = [], removeNodesQ = [''A''],
      msIndexToNode = [], smallNetworkInterval = 1\<rparr>"

definition pastIds :: "nat \<Rightarrow> string list" where
  "pastIds n = map (\<lambda>k. replicate (Suc k) CHR ''a'') [0..<n]"

definition nodeAt :: "feedItem \<Rightarrow> nat \<Rightarrow> nodeData" where
  "nodeAt it t = \<lparr>feedItem = it, added = t, graphId = None\<rparr>"

definition staleAndFresh :: visualizer where
  "staleAndFresh =
     \<lparr>protocol = Og,
      graph = \<lparr>nodes = [(''Z'', nodeAt (txItem ''Z'' 0 [] [] False) 10),
                        (''A'', nodeAt (txItem ''A'' 0 [] [] False) 90000),
                        (''B'', nodeAt (txItem ''B'' 0 ''A'' [] False) 90000)],
               links = [(''A'', ''B'')]\<rparr>,
      existingIdsV = ''Z'' # ''A'' # ''B'' # pastIds 37, newItems = [], removeNodesQ = [],
      msIndexToNode = [], smallNetworkInterval = 1\<rparr>"

definition loneNode :: visualizer where
  "loneNode =
     \<lparr>protocol = Og,
      graph = \<lparr>nodes = [(''X'', nodeAt (txItem ''X'' 0 [] [] False) 10)], links = []\<rparr>,
      existingIdsV = ''X'' # pastIds 33, newItems = [], removeNodesQ = [],
      msIndexToNode = [], smallNetworkInterval = 1\<rparr>"

text \<open>A visualizer with \<^verbatim>\<open>n\<close> pending items that have no parents and different ids.\<close>

definition floodItems :: "nat \<Rightarrow> feedItem list" where
  "floodItems n = map (\<lambda>k. txItem (replicate (Suc k) CHR ''a'') 0 [] [] False) [0..<n]"

definition flood :: "nat \<Rightarrow> visualizer" where
  "flood n = (newVisualizer Og)\<lparr>newItems := floodItems n\<rparr>"

definition capRun :: "vevent list" where
  "capRun = [ItemsUpdated (floodItems 250000) 0 0, DrawUpdates 10 20, DrawUpdates 30 40]"

section \<open>Properties of the node style\<close>

text \<open>
  Claim C9. The colour of a node is decided by the first applicable of: highlighted,
  milestone, confirmed with a nonzero value, confirmed with a zero (or no) value, pending;
  the size is large exactly when the node is a milestone or carries a nonzero value, and
  regular otherwise.
\<close>

theorem C9_node_style_precedence:
  "fst (calculateNodeStyle (Some d) h) =
     (if h then COLOR_SEARCH_RESULT
      else if hasMS (feedItem d) then COLOR_MILESTONE
      else if confirmed (feedItem d) \<and> nonZeroValue (feedItem d) then COLOR_VALUE_CONFIRMED
      else if confirmed (feedItem d) then COLOR_ZERO_CONFIRMED
      else COLOR_PENDING)
   \<and> (snd (calculateNodeStyle (Some d) h) = VERTEX_SIZE_LARGE
        \<longleftrightarrow> hasMS (feedItem d) \<or> nonZeroValue (feedItem d))
   \<and> (snd (calculateNodeStyle (Some d) h) = VERTEX_SIZE_REGULAR
        \<longleftrightarrow> \<not> (hasMS (feedItem d) \<or> nonZeroValue (feedItem d)))"
  by (simp add: calculateNodeStyle_def Let_def)

theorem C9_node_style_witness:
  "calculateNodeStyle
     (Some \<lparr>feedItem = \<lparr>idOf = ''a'', valueOf = Some 5, parent1 = '''', parent2 = '''',
                        metaData = Some \<lparr>msOf = Some 7, propsOf = []\<rparr>, payloadType = Some MS,
                        confirmed = True\<rparr>,
            added = 1, graphId = None\<rparr>) False
   = (COLOR_MILESTONE, VERTEX_SIZE_LARGE)"
  using C9_node_style_precedence
    [of "\<lparr>feedItem = \<lparr>idOf = ''a'', valueOf = Some 5, parent1 = '''', parent2 = '''',
                        metaData = Some \<lparr>msOf = Some 7, propsOf = []\<rparr>, payloadType = Some MS,
                        confirmed = True\<rparr>,
            added = 1, graphId = None\<rparr>" False]
  by (simp add: hasMS_def metaMS_def nonZeroValue_def prod_eq_iff)

section \<open>Properties of the feed client\<close>

subsection \<open>The retention block\<close>

lemma toRemove_drop: "toRemove P objs = drop MIN_ITEMS_PER_TYPE (filter P objs)"
  by (auto simp: toRemove_def Let_def)

lemma filter_notin_drop:
  "distinct xs \<Longrightarrow> filter (\<lambda>x. x \<notin> set (drop n xs)) xs = take n xs"
proof (induction xs arbitrary: n)
  case Nil
  then show ?case by simp
next
  case (Cons x xs)
  show ?case
  proof (cases n)
    case 0
    then show ?thesis by (simp add: filter_False)
  next
    case (Suc m)
    have "x \<notin> set (drop m xs)" using Cons.prems by (auto dest: in_set_dropD)
    then show ?thesis using Cons Suc by simp
  qed
qed


lemma filter_category:
  assumes "distinct objs"
    and "\<And>t. P t \<Longrightarrow> (t \<in> S) = (t \<in> set (drop m (filter P objs)))"
  shows "filter P (filter (\<lambda>t. t \<notin> S) objs) = take m (filter P objs)"
proof -
  have "filter P (filter (\<lambda>t. t \<notin> S) objs)
        = filter (\<lambda>t. t \<notin> set (drop m (filter P objs))) (filter P objs)"
    unfolding filter_filter using assms(2) by (intro filter_cong) auto
  also have "\<dots> = take m (filter P objs)"
    by (rule filter_notin_drop) (simp add: assms(1))
  finally show ?thesis .
qed

lemma filter_uncategorised:
  assumes "\<And>t. Q t \<Longrightarrow> t \<notin> S"
  shows "filter Q (filter (\<lambda>t. t \<notin> S) objs) = filter Q objs"
  unfolding filter_filter using assms by (intro filter_cong) auto

lemma notin_drop_filter: "\<not> Q t \<Longrightarrow> t \<notin> set (drop m (filter Q objs))"
  by (auto dest: in_set_dropD)

lemma filter_snd_enumerate: "map snd (filter (P \<circ> snd) (enumerate n its)) = filter P its"
  by (simp add: filter_map [symmetric])

lemma retention_removeSet:
  "retention isOg its =
     map snd (filter (\<lambda>t. t \<notin> removeSet isOg (enumerate 0 its)) (enumerate 0 its))"
  by (simp add: retention_def removeSet_def toRemove_drop Let_def)

lemma removeSet_category:
  assumes "P \<in> set (categories isOg)" and "P (snd t)"
  shows "(t \<in> removeSet isOg objs) = (t \<in> set (drop MIN_ITEMS_PER_TYPE (filter (P \<circ> snd) objs)))"
  using assms
  by (auto simp: removeSet_def categories_def notin_drop_filter hasPayload_def isZeroTx_def
      isNonZeroTx_def split: if_splits)

lemma retention_category:
  assumes "P \<in> set (categories isOg)"
  shows "filter P (retention isOg its) = take MIN_ITEMS_PER_TYPE (filter P its)"
proof -
  let ?objs = "enumerate 0 its"
  have d: "distinct ?objs" by (simp add: distinct_enumerate)
  have "filter P (retention isOg its)
        = map snd (filter (P \<circ> snd) (filter (\<lambda>t. t \<notin> removeSet isOg ?objs) ?objs))"
    by (simp add: retention_removeSet filter_map)
  also have "\<dots> = map snd (take MIN_ITEMS_PER_TYPE (filter (P \<circ> snd) ?objs))"
    by (subst filter_category [OF d, where m = MIN_ITEMS_PER_TYPE])
      (simp_all add: removeSet_category [OF assms])
  also have "\<dots> = take MIN_ITEMS_PER_TYPE (filter P its)"
    unfolding take_map [symmetric] filter_snd_enumerate ..
  finally show ?thesis .
qed

lemma retention_uncategorised:
  assumes "\<And>P t. P \<in> set (categories isOg) \<Longrightarrow> Q t \<Longrightarrow> \<not> P t"
  shows "filter Q (retention isOg its) = filter Q its"
proof -
  let ?objs = "enumerate 0 its"
  have nR: "t \<notin> removeSet isOg ?objs" if q: "(Q \<circ> snd) t" for t
  proof -
    have "t \<notin> set (drop MIN_ITEMS_PER_TYPE (filter (P \<circ> snd) ?objs))"
      if "P \<in> set (categories isOg)" for P
      by (rule notin_drop_filter) (use assms [OF that, of "snd t"] q in simp)
    then show ?thesis by (simp add: removeSet_def categories_def)
  qed
  have "filter Q (retention isOg its)
        = map snd (filter (Q \<circ> snd) (filter (\<lambda>t. t \<notin> removeSet isOg ?objs) ?objs))"
    by (simp add: retention_removeSet filter_map)
  also have "\<dots> = map snd (filter (Q \<circ> snd) ?objs)"
    by (subst filter_uncategorised) (simp_all add: nR)
  also have "\<dots> = filter Q its"
    by (rule filter_snd_enumerate)
  finally show ?thesis .
qed

subsection \<open>The handler\<close>

lemma onTransactions_accepted:
  assumes "Some (msgSubscriptionId msg) = subscriptionId fc"
  shows "delivered (onTransactions convertItem fc msg) = filteredNewItems convertItem fc msg"
    and "filteredNewItems convertItem fc msg \<noteq> [] \<Longrightarrow>
         items (client (onTransactions convertItem fc msg))
         = retention (protocolOg fc)
             (filteredNewItems convertItem fc msg @ mergeMetadata (msgItemsMetadata msg) (items fc))"
    and "filteredNewItems convertItem fc msg \<noteq> [] \<Longrightarrow>
         existingIds (client (onTransactions convertItem fc msg))
         = map idOf (items (client (onTransactions convertItem fc msg)))"
    and "filteredNewItems convertItem fc msg = [] \<Longrightarrow>
         items (client (onTransactions convertItem fc msg))
         = mergeMetadata (msgItemsMetadata msg) (items fc)
         \<and> existingIds (client (onTransactions convertItem fc msg)) = existingIds fc"
    and "called (onTransactions convertItem fc msg)
         = fst (notify (subscribers fc) (filteredNewItems convertItem fc msg) (msgItemsMetadata msg))"
    and "thrown (onTransactions convertItem fc msg)
         = snd (notify (subscribers fc) (filteredNewItems convertItem fc msg) (msgItemsMetadata msg))"
  using assms by (simp_all add: onTransactions_def Let_def split: prod.splits)

lemma onTransactions_ignored:
  assumes "Some (msgSubscriptionId msg) \<noteq> subscriptionId fc"
  shows "onTransactions convertItem fc msg
         = \<lparr>client = fc, delivered = [], called = [], thrown = False\<rparr>"
  using assms by (simp add: onTransactions_def)

lemma updateFirst_idOf:
  "(\<And>x. idOf (f x) = idOf x) \<Longrightarrow> map idOf (updateFirst P f xs) = map idOf xs"
  by (induction xs) auto

lemma mergeMetadata_idOf: "map idOf (mergeMetadata mds its) = map idOf its"
proof (cases mds)
  case None
  then show ?thesis by (simp add: mergeMetadata_def)
next
  case (Some ms)
  have "map idOf (fold (\<lambda>(metadataId, upd).
                  updateFirst (\<lambda>c. idOf c = metadataId)
                    (\<lambda>existing. existing\<lparr>metaData := Some (spread (metaData existing) upd)\<rparr>))
               ms its) = map idOf its"
    by (induction ms arbitrary: its) (auto simp: updateFirst_idOf)
  then show ?thesis by (simp add: mergeMetadata_def Some)
qed

lemma onTransactions_existingIds:
  assumes "existingIds fc = map idOf (items fc)"
  shows "existingIds (client (onTransactions convertItem fc msg))
         = map idOf (items (client (onTransactions convertItem fc msg)))"
proof (cases "Some (msgSubscriptionId msg) = subscriptionId fc")
  case True
  then show ?thesis
    using assms onTransactions_accepted(3,4) [OF True, of convertItem]
    by (cases "filteredNewItems convertItem fc msg = []") (simp_all add: mergeMetadata_idOf)
next
  case False
  then show ?thesis using assms by (simp add: onTransactions_ignored)
qed


text \<open>What every run of the handler preserves holds after all the runs, and before each.\<close>

lemma emitTransactions_invariant:
  assumes "P fc" and "\<And>c. P c \<Longrightarrow> P (client (onTransactions convertItem c msg))"
  shows "P (case emitTransactions convertItem n fc msg of
              [] \<Rightarrow> fc | d # ds \<Rightarrow> client (last (d # ds)))
         \<and> (\<forall>d\<in>set (emitTransactions convertItem n fc msg).
               \<exists>c. P c \<and> d = onTransactions convertItem c msg)"
  using assms(1)
proof (induction n arbitrary: fc)
  case 0
  then show ?case by simp
next
  case (Suc n)
  let ?d = "onTransactions convertItem fc msg"
  have p: "P (client ?d)" by (rule assms(2) [OF Suc.prems])
  note ih = Suc.IH [OF p]
  show ?case
  proof (cases "emitTransactions convertItem n (client ?d) msg")
    case Nil
    then show ?thesis using p Suc.prems by (auto simp: Let_def)
  next
    case (Cons e es)
    then show ?thesis using ih Suc.prems by (auto simp: Let_def)
  qed
qed



lemma funpow_onSubscribe:
  "((onSubscribe err sid) ^^ n) fc
   = (if 0 < n \<and> \<not> err then fc\<lparr>subscriptionId := Some sid\<rparr> else fc)"
  by (induction n) (auto simp: onSubscribe_def)

lemma step_existingIds:
  assumes "existingIds fc = map idOf (items fc)"
  shows "existingIds (step convertItem ev fc) = map idOf (items (step convertItem ev fc))"
proof (cases ev)
  case (Transactions msg)
  show ?thesis
    unfolding Transactions step.simps onMessage_def
    using emitTransactions_invariant
      [where P = "\<lambda>c. existingIds c = map idOf (items c)", OF assms onTransactions_existingIds]
    by blast
qed (use assms in \<open>simp_all add: subscribe_def unsubscribe_def funpow_onSubscribe Let_def\<close>)

lemma fold_step_existingIds:
  "existingIds fc = map idOf (items fc) \<Longrightarrow>
   existingIds (fold (step convertItem) evs fc) = map idOf (items (fold (step convertItem) evs fc))"
  by (induction evs arbitrary: fc) (simp_all add: step_existingIds)

lemma run_existingIds:
  "existingIds (run convertItem isOg evs) = map idOf (items (run convertItem isOg evs))"
  unfolding run_def by (rule fold_step_existingIds) (simp add: newFeedClient_def)


lemma retention_subset: "set (retention isOg its) \<subseteq> set its"
proof -
  have "set (map snd (filter Q (enumerate 0 its))) \<subseteq> set its" for Q
    by (auto simp: in_set_enumerate_eq)
  then show ?thesis unfolding retention_removeSet .
qed

lemma retention_all_zero:
  assumes "\<forall>t\<in>set its. isZeroTx t"
  shows "retention True its = take MIN_ITEMS_PER_TYPE its"
proof -
  have "\<forall>t\<in>set (retention True its). isZeroTx t"
    using assms retention_subset [of True its] by blast
  then have "retention True its = filter isZeroTx (retention True its)"
    by simp
  also have "\<dots> = take MIN_ITEMS_PER_TYPE (filter isZeroTx its)"
    by (rule retention_category) (simp add: categories_def)
  also have "\<dots> = take MIN_ITEMS_PER_TYPE its"
    using assms by simp
  finally show ?thesis .
qed




text \<open>
  Claim C5. When a message brings new items, the window keeps of every category the
  \<^verbatim>\<open>MIN_ITEMS_PER_TYPE\<close> most recent items (the list is newest first, the new items in
  front) and drops the older ones of that category only. After a burst of at least
  \<^verbatim>\<open>MIN_ITEMS_PER_TYPE\<close> new zero-value transactions the window holds exactly
  \<^verbatim>\<open>MIN_ITEMS_PER_TYPE\<close> zero-value transactions, and every category that holds no
  zero-value transaction keeps what it had, up to the floor: at least
  \<^verbatim>\<open>MIN_ITEMS_PER_TYPE\<close> items where it had that many.
\<close>

theorem C5_per_category_retention:
  assumes "Some (msgSubscriptionId msg) = subscriptionId fc"
    and "new = filteredNewItems convertItem fc msg" and "new \<noteq> []"
    and "old = mergeMetadata (msgItemsMetadata msg) (items fc)"
    and "kept = items (client (onTransactions convertItem fc msg))"
  shows "(\<forall>P\<in>set (categories (protocolOg fc)).
            filter P kept = take MIN_ITEMS_PER_TYPE (filter P (new @ old)))
         \<and> ((\<forall>t\<in>set new. isZeroTx t) \<and> MIN_ITEMS_PER_TYPE \<le> length new \<longrightarrow>
              length (filter isZeroTx kept) = MIN_ITEMS_PER_TYPE
              \<and> (\<forall>P\<in>set (categories (protocolOg fc)). (\<forall>t. P t \<longrightarrow> \<not> isZeroTx t) \<longrightarrow>
                    filter P kept = take MIN_ITEMS_PER_TYPE (filter P old)
                    \<and> (MIN_ITEMS_PER_TYPE \<le> length (filter P old)
                         \<longrightarrow> MIN_ITEMS_PER_TYPE \<le> length (filter P kept))))"
proof -
  have kept: "kept = retention (protocolOg fc) (new @ old)"
    using assms onTransactions_accepted(2) [OF assms(1), of convertItem] by simp
  have cat: "filter P kept = take MIN_ITEMS_PER_TYPE (filter P (new @ old))"
    if "P \<in> set (categories (protocolOg fc))" for P
    unfolding kept by (rule retention_category [OF that])
  have burst: "length (filter isZeroTx kept) = MIN_ITEMS_PER_TYPE
      \<and> (\<forall>P\<in>set (categories (protocolOg fc)). (\<forall>t. P t \<longrightarrow> \<not> isZeroTx t) \<longrightarrow>
            filter P kept = take MIN_ITEMS_PER_TYPE (filter P old)
            \<and> (MIN_ITEMS_PER_TYPE \<le> length (filter P old)
                 \<longrightarrow> MIN_ITEMS_PER_TYPE \<le> length (filter P kept)))"
    if z: "\<forall>t\<in>set new. isZeroTx t" and n: "MIN_ITEMS_PER_TYPE \<le> length new"
  proof -
    have fz: "filter isZeroTx new = new" using z by simp
    have "length (filter isZeroTx kept) = MIN_ITEMS_PER_TYPE"
    proof (cases "protocolOg fc")
      case True
      then have "filter isZeroTx kept = take MIN_ITEMS_PER_TYPE (filter isZeroTx (new @ old))"
        by (intro cat) (simp add: categories_def)
      then show ?thesis using n by (simp add: fz)
    next
      case False
      have tx: "filter (hasPayload Transaction) new = new"
        using z by (simp add: isZeroTx_def hasPayload_def)
      have "filter (hasPayload Transaction) kept
            = take MIN_ITEMS_PER_TYPE (filter (hasPayload Transaction) (new @ old))"
        using False by (intro cat) (simp add: categories_def)
      then have t: "filter (hasPayload Transaction) kept = take MIN_ITEMS_PER_TYPE new"
        using n by (simp add: tx)
      have "filter isZeroTx kept = filter isZeroTx (filter (hasPayload Transaction) kept)"
        unfolding filter_filter by (intro filter_cong) (auto simp: isZeroTx_def hasPayload_def)
      also have "\<dots> = take MIN_ITEMS_PER_TYPE new"
        unfolding t using z by (auto intro!: filter_True dest: in_set_takeD)
      finally show ?thesis using n by simp
    qed
    moreover have "filter P kept = take MIN_ITEMS_PER_TYPE (filter P old)
            \<and> (MIN_ITEMS_PER_TYPE \<le> length (filter P old)
                 \<longrightarrow> MIN_ITEMS_PER_TYPE \<le> length (filter P kept))"
      if "P \<in> set (categories (protocolOg fc))" and d: "\<forall>t. P t \<longrightarrow> \<not> isZeroTx t" for P
    proof -
      have "filter P new = []" using z d by (auto simp: filter_empty_conv)
      then show ?thesis using cat [OF that(1)] by simp
    qed
    ultimately show ?thesis by blast
  qed
  show ?thesis using cat burst by blast
qed

theorem C5_per_category_retention_witness:
  "length (filter isZeroTx (items (client (onTransactions (\<lambda>r. r)
      \<lparr>protocolOg = False, items = [indexItem ''i''], existingIds = [''i''],
       subscriptionId = Some ''s'', subscribers = [], subscribeHandlers = 1,
       transactionsHandlers = 1\<rparr>
      \<lparr>msgSubscriptionId = ''s'', msgItems = burstOf 1000, msgItemsMetadata = None\<rparr>))))
   = MIN_ITEMS_PER_TYPE
   \<and> filter (hasPayload Index) (items (client (onTransactions (\<lambda>r. r)
      \<lparr>protocolOg = False, items = [indexItem ''i''], existingIds = [''i''],
       subscriptionId = Some ''s'', subscribers = [], subscribeHandlers = 1,
       transactionsHandlers = 1\<rparr>
      \<lparr>msgSubscriptionId = ''s'', msgItems = burstOf 1000, msgItemsMetadata = None\<rparr>)))
     = [indexItem ''i'']"
proof -
  let ?fc = "\<lparr>protocolOg = False, items = [indexItem ''i''], existingIds = [''i''],
       subscriptionId = Some ''s'', subscribers = [], subscribeHandlers = 1,
       transactionsHandlers = 1\<rparr>"
  let ?msg = "\<lparr>msgSubscriptionId = ''s'', msgItems = burstOf 1000, msgItemsMetadata = None\<rparr>"
  have new: "filteredNewItems (\<lambda>r. r) ?fc ?msg = burstOf 1000"
    by (auto simp: filteredNewItems_def burstOf_def zeroTx_def)
  have ne: "burstOf 1000 \<noteq> []"
    by (simp add: burstOf_def)
  have z: "\<forall>t\<in>set (burstOf 1000). isZeroTx t"
    by (auto simp: burstOf_def zeroTx_def isZeroTx_def)
  have n: "MIN_ITEMS_PER_TYPE \<le> length (burstOf 1000)"
    by (simp add: burstOf_def MIN_ITEMS_PER_TYPE_def)
  have old: "mergeMetadata (msgItemsMetadata ?msg) (items ?fc) = [indexItem ''i'']"
    by (simp add: mergeMetadata_def)
  have c: "hasPayload Index \<in> set (categories (protocolOg ?fc))"
    by (simp add: categories_def)
  have d: "\<forall>t. hasPayload Index t \<longrightarrow> \<not> isZeroTx t"
    by (simp add: hasPayload_def isZeroTx_def)
  have i: "filter (hasPayload Index) [indexItem ''i''] = [indexItem ''i'']"
    by (simp add: hasPayload_def indexItem_def)
  let ?kept = "items (client (onTransactions (\<lambda>r. r) ?fc ?msg))"
  have acc: "Some (msgSubscriptionId ?msg) = subscriptionId ?fc" by simp
  note T = C5_per_category_retention [OF acc new [symmetric] ne old [symmetric] refl,
      THEN conjunct2, rule_format, OF conjI, OF z n]
  have "length (filter isZeroTx ?kept) = MIN_ITEMS_PER_TYPE"
    using T by blast
  moreover have "filter (hasPayload Index) ?kept = [indexItem ''i'']"
    using T [THEN conjunct2, rule_format, OF c d [rule_format]] i by (simp add: MIN_ITEMS_PER_TYPE_def)
  ultimately show ?thesis by blast
qed










text \<open>
  Claim C10. After any sequence of calls and messages the list of existing ids is the list
  of the ids of the items in the window, so a message's items are filtered against the
  window only: an item is new, and handed to the listeners, whenever no item of the window
  has its id, whether or not it was ingested before.
\<close>

theorem C10_existing_ids_follow_window:
  "existingIds (run convertItem isOg evs) = map idOf (items (run convertItem isOg evs))
   \<and> (Some (msgSubscriptionId msg) = subscriptionId (run convertItem isOg evs) \<longrightarrow>
        delivered (onTransactions convertItem (run convertItem isOg evs) msg)
        = filter (\<lambda>nh. idOf nh \<notin> idOf ` set (items (run convertItem isOg evs)))
            (map convertItem (msgItems msg)))"
proof -
  have e: "existingIds (run convertItem isOg evs) = map idOf (items (run convertItem isOg evs))"
    by (rule run_existingIds)
  have "delivered (onTransactions convertItem (run convertItem isOg evs) msg)
        = filter (\<lambda>nh. idOf nh \<notin> idOf ` set (items (run convertItem isOg evs)))
            (map convertItem (msgItems msg))"
    if "Some (msgSubscriptionId msg) = subscriptionId (run convertItem isOg evs)"
    using onTransactions_accepted(1) [OF that, of convertItem]
    by (simp add: filteredNewItems_def e)
  then show ?thesis using e by blast
qed

theorem C10_existing_ids_witness:
  "idOf (zeroTx ''x'') \<in> set (existingIds (run (\<lambda>r. r) True
       [Subscribe ''A'' quiet, SubscribeResponse False ''s'',
        Transactions \<lparr>msgSubscriptionId = ''s'', msgItems = [zeroTx ''x''],
                      msgItemsMetadata = None\<rparr>]))
   \<and> delivered (onTransactions (\<lambda>r. r)
        (run (\<lambda>r. r) True
           [Subscribe ''A'' quiet, SubscribeResponse False ''s'',
            Transactions \<lparr>msgSubscriptionId = ''s'', msgItems = [zeroTx ''x''],
                          msgItemsMetadata = None\<rparr>,
            Transactions \<lparr>msgSubscriptionId = ''s'', msgItems = burstOf 50,
                          msgItemsMetadata = None\<rparr>])
        \<lparr>msgSubscriptionId = ''s'', msgItems = [zeroTx ''x''], msgItemsMetadata = None\<rparr>)
      = [zeroTx ''x'']"
proof -
  let ?m1 = "\<lparr>msgSubscriptionId = ''s'', msgItems = [zeroTx ''x''], msgItemsMetadata = None\<rparr>"
  let ?m2 = "\<lparr>msgSubscriptionId = ''s'', msgItems = burstOf 50, msgItemsMetadata = None\<rparr>"
  let ?fc0 = "\<lparr>protocolOg = True, items = [], existingIds = [],
              subscriptionId = Some ''s'', subscribers = [(''A'', quiet)],
              subscribeHandlers = Suc 0, transactionsHandlers = Suc 0\<rparr>"
  let ?fc1 = "\<lparr>protocolOg = True, items = [zeroTx ''x''], existingIds = [''x''],
              subscriptionId = Some ''s'', subscribers = [(''A'', quiet)],
              subscribeHandlers = Suc 0, transactionsHandlers = Suc 0\<rparr>"
  have z: "isZeroTx (zeroTx ''x'')" "\<forall>t\<in>set (burstOf 50). isZeroTx t"
    by (auto simp: burstOf_def zeroTx_def isZeroTx_def)
  have c1: "client (onTransactions (\<lambda>r. r) ?fc0 ?m1) = ?fc1"
    using z(1)
    by (simp add: onTransactions_def filteredNewItems_def mergeMetadata_def
        Let_def retention_all_zero MIN_ITEMS_PER_TYPE_def split: prod.splits)
      (simp add: zeroTx_def)
  have n2: "filteredNewItems (\<lambda>r. r) ?fc1 ?m2 = burstOf 50"
    by (auto simp: filteredNewItems_def burstOf_def zeroTx_def)
  have b: "burstOf 50 \<noteq> []" "length (burstOf 50) = MIN_ITEMS_PER_TYPE"
    by (simp_all add: burstOf_def MIN_ITEMS_PER_TYPE_def)
  have "items (client (onTransactions (\<lambda>r. r) ?fc1 ?m2))
        = retention True (burstOf 50 @ [zeroTx ''x''])"
    using onTransactions_accepted(2) [of ?m2 ?fc1 "\<lambda>r. r"] b(1)
    by (simp add: n2 mergeMetadata_def)
  then have c2: "items (client (onTransactions (\<lambda>r. r) ?fc1 ?m2)) = burstOf 50"
    using z b(2) by (simp add: retention_all_zero)
  have s2: "subscriptionId (client (onTransactions (\<lambda>r. r) ?fc1 ?m2)) = Some ''s''"
    by (simp add: onTransactions_def Let_def split: prod.splits)
  have r1: "run (\<lambda>r. r) True [Subscribe ''A'' quiet, SubscribeResponse False ''s'', Transactions ?m1] = ?fc1"
    using c1
    by (simp add: run_def newFeedClient_def subscribe_def noSubscriptionId_def onSubscribe_def
        onMessage_def Let_def)
  have r2: "run (\<lambda>r. r) True [Subscribe ''A'' quiet, SubscribeResponse False ''s'', Transactions ?m1, Transactions ?m2]
            = client (onTransactions (\<lambda>r. r) ?fc1 ?m2)"
    using c1
    by (simp add: run_def newFeedClient_def subscribe_def noSubscriptionId_def onSubscribe_def
        onMessage_def Let_def)
  have x: "idOf (zeroTx ''x'') \<notin> idOf ` set (burstOf 50)"
    by (auto simp: burstOf_def zeroTx_def)
  have "delivered (onTransactions (\<lambda>r. r)
          (run (\<lambda>r. r) True [Subscribe ''A'' quiet, SubscribeResponse False ''s'', Transactions ?m1, Transactions ?m2])
          ?m1) = [zeroTx ''x'']"
    using C10_existing_ids_follow_window
      [of "\<lambda>r. r" True "[Subscribe ''A'' quiet, SubscribeResponse False ''s'', Transactions ?m1, Transactions ?m2]" ?m1]
      x
    unfolding r2 by (simp add: c2 s2)
  moreover have "idOf (zeroTx ''x'') \<in> set (existingIds
       (run (\<lambda>r. r) True [Subscribe ''A'' quiet, SubscribeResponse False ''s'', Transactions ?m1]))"
    unfolding r1 by (simp add: zeroTx_def)
  ultimately show ?thesis by blast
qed

section \<open>Properties of adding a batch\<close>

lemma getNode_addNode: "getNode (addNode n d g) m = (if m = n then Some d else getNode g m)"
  by (simp add: getNode_def addNode_def update_conv')

lemma getNode_addLink: "getNode (addLink a b g) m = getNode g m"
  by (simp add: getNode_def addLink_def)

lemma links_addNode: "links (addNode n d g) = links g"
  by (simp add: addNode_def)

lemma links_addLink: "links (addLink a b g) = links g @ [(a, b)]"
  by (simp add: addLink_def)

lemma linkParent_getNode:
  "getNode (fst s) n = Some d \<Longrightarrow> getNode (fst (linkParent now p c s)) n = Some d"
  by (cases s) (auto simp: linkParent_def getNode_addNode getNode_addLink)

lemma linkParent_links:
  "links (fst (linkParent now p c s)) = links (fst s) @ [(p, c)]"
  by (cases s) (simp add: linkParent_def links_addNode links_addLink)

lemma drawItem_existing:
  "getNode (fst s) (idOf item) \<noteq> None \<Longrightarrow> drawItem now item s = s"
  by (cases s) (auto simp: drawItem_def)

lemma drawItem_getNode:
  assumes "getNode (fst s) n = Some d"
  shows "getNode (fst (drawItem now item s)) n = Some d"
proof (cases "getNode (fst s) (idOf item)")
  case None
  then have "n \<noteq> idOf item" using assms by auto
  then have "getNode (fst (addNode (idOf item) \<lparr>feedItem = item, added = now, graphId = None\<rparr> (fst s),
                 snd s @ [idOf item])) n = Some d"
    using assms by (simp add: getNode_addNode)
  then show ?thesis
    using None by (cases s) (simp add: drawItem_def Let_def linkParent_getNode)
next
  case (Some e)
  then show ?thesis using assms by (simp add: drawItem_existing)
qed

lemma drawItem_adds:
  "getNode (fst (drawItem now item s)) (idOf item) \<noteq> None"
proof (cases "getNode (fst s) (idOf item)")
  case None
  have "getNode (fst (addNode (idOf item) \<lparr>feedItem = item, added = now, graphId = None\<rparr> (fst s),
                 snd s @ [idOf item])) (idOf item)
        = Some \<lparr>feedItem = item, added = now, graphId = None\<rparr>"
    by (simp add: getNode_addNode)
  then show ?thesis
    using None by (cases s) (simp add: drawItem_def Let_def linkParent_getNode)
next
  case (Some e)
  then show ?thesis by (simp add: drawItem_existing)
qed

lemma drawItem_links_prefix:
  "\<exists>ls. links (fst (drawItem now item s)) = links (fst s) @ ls"
  by (cases s)
    (auto simp: drawItem_def Let_def linkParent_links links_addNode split: option.splits)

lemma fold_drawItem_getNode:
  "getNode (fst s) n = Some d \<Longrightarrow> getNode (fst (fold (drawItem now) its s)) n = Some d"
  by (induction its arbitrary: s) (simp_all add: drawItem_getNode)

lemma fold_drawItem_links_prefix:
  "\<exists>ls. links (fst (fold (drawItem now) its s)) = links (fst s) @ ls"
proof (induction its arbitrary: s)
  case Nil
  then show ?case by simp
next
  case (Cons it its)
  obtain l1 where "links (fst (drawItem now it s)) = links (fst s) @ l1"
    using drawItem_links_prefix by blast
  moreover obtain l2 where
    "links (fst (fold (drawItem now) its (drawItem now it s))) = links (fst (drawItem now it s)) @ l2"
    using Cons.IH by blast
  ultimately show ?case by simp
qed

lemma fold_drawItem_adds:
  "item \<in> set its \<Longrightarrow> getNode (fst (fold (drawItem now) its s)) (idOf item) \<noteq> None"
proof (induction its arbitrary: s)
  case Nil
  then show ?case by simp
next
  case (Cons it its)
  show ?case
  proof (cases "item = it")
    case True
    obtain d where "getNode (fst (drawItem now it s)) (idOf it) = Some d"
      using drawItem_adds [of now it s] by auto
    then show ?thesis using True fold_drawItem_getNode by simp
  next
    case False
    then show ?thesis using Cons by simp
  qed
qed

lemma getNode_nodeIds: "(getNode g n \<noteq> None) = (n \<in> set (nodeIds g))"
  by (simp add: getNode_def nodeIds_def map_of_eq_None_iff)

lemma nodeIds_getNode: "n \<in> set (nodeIds g) \<Longrightarrow> \<exists>d. getNode g n = Some d"
  using getNode_nodeIds [of g n] by auto

lemma nodeIds_addNode:
  "nodeIds (addNode n d g) = (if n \<in> set (nodeIds g) then nodeIds g else nodeIds g @ [n])"
  by (simp add: nodeIds_def addNode_def update_keys)

lemma nodeIds_addLink: "nodeIds (addLink a b g) = nodeIds g"
  by (simp add: nodeIds_def addLink_def)

lemma count_list_distinct:
  "distinct xs \<Longrightarrow> x \<in> set xs \<Longrightarrow> count_list xs x = 1"
  by (induction xs) (auto simp: count_list_0_iff)

lemma linkParent_distinct:
  "distinct (nodeIds (fst s)) \<Longrightarrow> distinct (nodeIds (fst (linkParent now p c s)))"
  by (cases s) (auto simp: linkParent_def nodeIds_addNode nodeIds_addLink
      dest: nodeIds_getNode)

lemma drawItem_distinct:
  "distinct (nodeIds (fst s)) \<Longrightarrow> distinct (nodeIds (fst (drawItem now item s)))"
  by (cases s) (auto simp: drawItem_def Let_def nodeIds_addNode intro!: linkParent_distinct
      dest: nodeIds_getNode split: option.splits)

lemma drawItem_node:
  "getNode (fst (drawItem now item (g, a))) (idOf item)
   = Some (case getNode g (idOf item) of
             None \<Rightarrow> \<lparr>feedItem = item, added = now, graphId = None\<rparr>
           | Some d \<Rightarrow> d)"
proof (cases "getNode g (idOf item)")
  case (Some d)
  then show ?thesis using drawItem_existing [of "(g, a)" item now] by simp
next
  case None
  have "getNode (fst (addNode (idOf item) \<lparr>feedItem = item, added = now, graphId = None\<rparr> g,
                 a @ [idOf item])) (idOf item)
        = Some \<lparr>feedItem = item, added = now, graphId = None\<rparr>"
    by (simp add: getNode_addNode)
  then show ?thesis
    using None by (simp add: drawItem_def Let_def linkParent_getNode)
qed

lemma drawItem_absent:
  "getNode g (idOf item) = None \<Longrightarrow> \<exists>a1. snd (drawItem now item (g, a)) = a @ idOf item # a1"
  by (auto simp: drawItem_def Let_def linkParent_def)

lemma drawItems_known:
  assumes "\<forall>it\<in>set its. getNode g (idOf it) \<noteq> None"
  shows "drawItems now its g = (g, [])"
proof -
  have "fold (drawItem now) its (g, a) = (g, a)" for a
    using assms by (induction its) (simp_all add: drawItem_existing)
  then show ?thesis by (simp add: drawItems_def)
qed

text \<open>
  Claim C7. The first drawing of an item leaves exactly one node with its id: the node it
  made, or the node that was there. From then on an item of that id changes nothing, be it
  the next item, a later item of the same batch or an item of a later batch, where the
  list of added ids starts empty: the nodes, the links and the list of added ids stay as
  they are. A batch whose ids were all drawn before adds nothing. In any graph, an item
  leaves the state as it is exactly when its id names a node, so an id whose node has been
  removed since is drawn anew.
\<close>

theorem C7_second_ingestion_changes_nothing:
  assumes "idOf item' = idOf item" and "distinct (nodeIds g)"
    and "afterFirst = drawItem now item (g, addedIds)"
    and "afterOthers = fold (drawItem now) others afterFirst"
    and "later = fst (drawItems nowLater laterBatch (fst afterOthers))"
  shows "getNode (fst afterFirst) (idOf item)
           = Some (case getNode g (idOf item) of
                     None \<Rightarrow> \<lparr>feedItem = item, added = now, graphId = None\<rparr>
                   | Some d \<Rightarrow> d)
     \<and> count_list (nodeIds (fst afterFirst)) (idOf item) = 1
     \<and> drawItem now' item' afterFirst = afterFirst
     \<and> drawItem now' item' afterOthers = afterOthers
     \<and> drawItem now' item' (later, addedIds') = (later, addedIds')
     \<and> drawItems now' [item'] later = (later, [])
     \<and> ((\<forall>it\<in>set its'. idOf it \<in> idOf ` set its) \<longrightarrow>
           drawItems now' its' (fst (drawItems now its g)) = (fst (drawItems now its g), []))
     \<and> ((drawItem now' item' (g', addedIds') = (g', addedIds')) = (getNode g' (idOf item') \<noteq> None))"
proof -
  have n1: "getNode (fst afterFirst) (idOf item)
           = Some (case getNode g (idOf item) of
                     None \<Rightarrow> \<lparr>feedItem = item, added = now, graphId = None\<rparr>
                   | Some d \<Rightarrow> d)"
    unfolding assms(3) by (rule drawItem_node)
  then obtain d where d1: "getNode (fst afterFirst) (idOf item') = Some d" using assms(1) by simp
  have "distinct (nodeIds (fst afterFirst))"
    unfolding assms(3) using assms(2) by (intro drawItem_distinct) simp
  moreover have "idOf item \<in> set (nodeIds (fst afterFirst))"
    using n1 getNode_nodeIds [of "fst afterFirst" "idOf item"] by simp
  ultimately have c: "count_list (nodeIds (fst afterFirst)) (idOf item) = 1"
    by (rule count_list_distinct)
  have e1: "drawItem now' item' afterFirst = afterFirst"
    using d1 by (intro drawItem_existing) simp
  have d2: "getNode (fst afterOthers) (idOf item') = Some d"
    unfolding assms(4) using d1 by (rule fold_drawItem_getNode)
  then have e2: "drawItem now' item' afterOthers = afterOthers"
    by (intro drawItem_existing) simp
  have d3: "getNode later (idOf item') = Some d"
    unfolding assms(5) drawItems_def using fold_drawItem_getNode [of "(fst afterOthers, [])"] d2 by simp
  then have e3: "drawItem now' item' (later, addedIds') = (later, addedIds')"
    using drawItem_existing [of "(later, addedIds')" item' now'] by simp
  then have e4: "drawItems now' [item'] later = (later, [])"
    using drawItem_existing [of "(later, [])" item' now'] d3 by (simp add: drawItems_def)
  have e5: "drawItems now' its' (fst (drawItems now its g)) = (fst (drawItems now its g), [])"
    if mem: "\<forall>it\<in>set its'. idOf it \<in> idOf ` set its"
  proof (rule drawItems_known, rule ballI)
    fix it' assume "it' \<in> set its'"
    then obtain it where "it \<in> set its" "idOf it' = idOf it" using mem by auto
    then show "getNode (fst (drawItems now its g)) (idOf it') \<noteq> None"
      using fold_drawItem_adds [of it its now "(g, [])"] by (simp add: drawItems_def)
  qed
  have e6: "(drawItem now' item' (g', addedIds') = (g', addedIds'))
            = (getNode g' (idOf item') \<noteq> None)"
  proof (cases "getNode g' (idOf item')")
    case None
    then show ?thesis using drawItem_absent [OF None, of now' addedIds'] by auto
  next
    case (Some x)
    then show ?thesis using drawItem_existing [of "(g', addedIds')" item' now'] by simp
  qed
  show ?thesis using n1 c e1 e2 e3 e4 e5 e6 by blast
qed


text \<open>
  Claim C1, as the code has it. An item whose id names a node of the graph, a
  placeholder or not, is skipped: the graph and the list of added ids stay as they are.
  Through a whole batch every node that was in the graph keeps its data, and the links
  that were in the graph stay, in their order; the batch only adds nodes and links.
\<close>

theorem C1_existing_node_is_left_as_it_is:
  "(getNode g (idOf item) \<noteq> None \<longrightarrow> drawItem now item (g, addedIds) = (g, addedIds))
   \<and> (getNode g n = Some d \<longrightarrow> getNode (fst (drawItems now its g)) n = Some d)
   \<and> (\<exists>ls. links (fst (drawItems now its g)) = links g @ ls)"
  using drawItem_existing [of "(g, addedIds)" item now]
    fold_drawItem_getNode [of "(g, [])" n d now its]
    fold_drawItem_links_prefix [of now its "(g, [])"]
  by (simp add: drawItems_def)


theorem C7_second_ingestion_witness:
  "getNode (fst (drawItem 10 (txItem ''C'' 0 ''P'' [] False) (emptyGraph, []))) ''C''
     = Some \<lparr>feedItem = txItem ''C'' 0 ''P'' [] False, added = 10, graphId = None\<rparr>
   \<and> count_list (nodeIds (fst (drawItem 10 (txItem ''C'' 0 ''P'' [] False) (emptyGraph, [])))) ''C''
     = 1
   \<and> drawItem 40 (txItem ''C'' 0 ''P'' [] True)
        (drawItem 10 (txItem ''C'' 0 ''P'' [] False) (emptyGraph, []))
     = drawItem 10 (txItem ''C'' 0 ''P'' [] False) (emptyGraph, [])
   \<and> drawItems 40 [txItem ''C'' 0 ''P'' [] True]
        (fst (drawItems 30 [txItem ''D'' 0 ''C'' [] False]
           (fst (drawItem 10 (txItem ''C'' 0 ''P'' [] False) (emptyGraph, [])))))
     = (fst (drawItems 30 [txItem ''D'' 0 ''C'' [] False]
           (fst (drawItem 10 (txItem ''C'' 0 ''P'' [] False) (emptyGraph, [])))), [])
   \<and> snd (drawItem 10 (txItem ''C'' 0 ''P'' [] False) (emptyGraph, [])) = [''C'', ''P'']"
proof -
  have a1: "idOf (txItem ''C'' 0 ''P'' [] True) = idOf (txItem ''C'' 0 ''P'' [] False)"
    by (simp add: txItem_def)
  have a2: "distinct (nodeIds emptyGraph)"
    by (simp add: nodeIds_def emptyGraph_def)
  have i: "idOf (txItem ''C'' 0 ''P'' [] False) = ''C''"
    and n: "getNode emptyGraph ''C'' = None"
    by (simp_all add: txItem_def getNode_def emptyGraph_def)
  have l: "snd (drawItem 10 (txItem ''C'' 0 ''P'' [] False) (emptyGraph, [])) = [''C'', ''P'']"
    by (simp add: txItem_def drawItem_def linkParent_def getNode_def addNode_def addLink_def
        emptyGraph_def Let_def)
  note T = C7_second_ingestion_changes_nothing [where item' = "txItem ''C'' 0 ''P'' [] True"
      and item = "txItem ''C'' 0 ''P'' [] False" and g = emptyGraph and now = 10
      and addedIds = "[]" and others = "[]" and nowLater = 30
      and laterBatch = "[txItem ''D'' 0 ''C'' [] False]" and now' = 40 and addedIds' = "[]",
      OF a1 a2 refl refl refl]
  show ?thesis
    using T l by (simp add: i n)
qed

theorem C1_existing_node_witness:
  "drawItem 20 (txItem ''P'' 5 [] [] True)
     (fst (drawItems 10 [txItem ''C'' 0 ''P'' [] False] emptyGraph), [])
   = (fst (drawItems 10 [txItem ''C'' 0 ''P'' [] False] emptyGraph), [])
   \<and> getNode (fst (drawItems 20 [txItem ''P'' 5 [] [] True]
          (fst (drawItems 10 [txItem ''C'' 0 ''P'' [] False] emptyGraph)))) ''P''
     = Some (placeholder ''P'' 10)"
proof -
  have p: "getNode (fst (drawItems 10 [txItem ''C'' 0 ''P'' [] False] emptyGraph)) ''P''
           = Some (placeholder ''P'' 10)"
    by (simp add: drawItems_def txItem_def drawItem_def linkParent_def getNode_def addNode_def
        addLink_def emptyGraph_def Let_def)
  have i: "idOf (txItem ''P'' 5 [] [] True) = ''P''"
    by (simp add: txItem_def)
  show ?thesis
    using C1_existing_node_is_left_as_it_is
      [of "fst (drawItems 10 [txItem ''C'' 0 ''P'' [] False] emptyGraph)"
          "txItem ''P'' 5 [] [] True" 20 "[]" "''P''" "placeholder ''P'' 10"
          "[txItem ''P'' 5 [] [] True]"]
    by (simp add: p i)
qed

text \<open>
  The claim as stated fails: the item \<^verbatim>\<open>P\<close> arrives after its child made a placeholder
  for it, and the node keeps the placeholder's payload.
\<close>

theorem C1_placeholder_upgrade_counterexample:
  "map_option feedItem
     (getNode (fst (drawItems 20 [txItem ''P'' 5 [] [] True]
        (fst (drawItems 10 [txItem ''C'' 0 ''P'' [] False] emptyGraph)))) ''P'')
   = Some (feedItem (placeholder ''P'' 10))
   \<and> feedItem (placeholder ''P'' 10) \<noteq> txItem ''P'' 5 [] [] True"
  by (simp add: drawItems_def txItem_def drawItem_def linkParent_def getNode_def addNode_def
      addLink_def emptyGraph_def placeholder_def Let_def)

section \<open>Properties of removing nodes\<close>

lemma getNode_removeNode: "getNode (removeNode n g) m = (if m = n then None else getNode g m)"
  by (auto simp: getNode_def removeNode_def delete_conv' split: option.splits)

lemma getNode_removeLink: "getNode (removeLink l g) m = getNode g m"
  by (simp add: getNode_def removeLink_def)

text \<open>
  In \<^verbatim>\<open>removeNodes\<close> the node is looked up after it was removed, so the lookup finds
  nothing and the entry of the removed node in \<^verbatim>\<open>_msIndexToNode\<close> is never cleared.
\<close>

lemma removeNodesLoop_step:
  "removeNodesLoop (nodeToRemove # q) (g, ms) =
     (if nodeToRemove \<noteq> [] then
        (case (case getNode g nodeToRemove of
                 None \<Rightarrow> Some (g, ms)
               | Some node \<Rightarrow> removeLinked nodeToRemove 0 (g, ms)) of
           None \<Rightarrow> None
         | Some (g1, ms1) \<Rightarrow> removeNodesLoop q (removeNode nodeToRemove g1, ms1))
      else removeNodesLoop q (g, ms))"
  by (simp add: getNode_removeNode split: option.splits)

text \<open>
  Claim C4 at a graph of one milestone node \<^verbatim>\<open>M\<close> with the entry \<^verbatim>\<open>7 \<mapsto> M\<close> in
  \<^verbatim>\<open>_msIndexToNode\<close> and \<^verbatim>\<open>M\<close> in the queue: the drain removes the node and leaves the
  entry.
\<close>

theorem C4_removed_node_keeps_its_milestone_entry:
  "map_option (\<lambda>v. (nodes (graph v), removeNodesQ v, msIndexToNode v)) (removeNodes milestoneOnly)
   = Some ([], [], [(7, \<lparr>msNodeId = ''M'', lastSeen = 10\<rparr>)])"
  by (simp add: removeNodes_def milestoneOnly_def getNode_def nodeLinks_def removeNode_def)

text \<open>
  The walk over the live \<^verbatim>\<open>links\<close> array skips every second link: with the links
  \<^verbatim>\<open>A \<rightarrow> B\<close> and \<^verbatim>\<open>A \<rightarrow> C\<close>, removing \<^verbatim>\<open>A\<close> removes \<^verbatim>\<open>B\<close> and both links, and
  leaves \<^verbatim>\<open>C\<close> in the graph without a link.
\<close>

lemma removeNodes_skips_second_neighbour:
  "map_option (\<lambda>v. (nodeIds (graph v), links (graph v))) (removeNodes parentOfTwo)
   = Some ([''C''], [])"
  by (simp add: removeNodes_def parentOfTwo_def drawItems_def txItem_def drawItem_def
      linkParent_def getNode_def addNode_def addLink_def emptyGraph_def Let_def nodeLinks_def
      touches_def linkedNodeId_def removeLink_def removeNode_def nodeIds_def)

section \<open>Properties of the milestone pass\<close>

lemma highlightLoop_spec:
  "highlightLoop now keys (g, ms, r) = (g', ms', r') \<Longrightarrow>
     (\<forall>n. (getNode g' n = None) = (getNode g n = None))
     \<and> (\<forall>k. map_of ms' k = refreshed now g keys ms k)
     \<and> set r' = set r \<union> expired now g keys ms"
proof (induction keys arbitrary: g ms r)
  case Nil
  then show ?case by (auto simp: refreshed_def expired_def split: option.splits)
next
  case (Cons j keys)
  show ?case
  proof (cases "map_of ms j")
    case None
    then have "highlightLoop now keys (g, ms, r) = (g', ms', r')"
      using Cons.prems by simp
    from Cons.IH [OF this] None show ?thesis
      by (auto simp: refreshed_def expired_def split: option.splits)
  next
    case (Some e)
    show ?thesis
    proof (cases "getNode g (msNodeId e)")
      case (Some d)
      let ?g1 = "addNode (msNodeId e) (setMS j d) g"
      let ?ms1 = "AList.update j (e\<lparr>lastSeen := now\<rparr>) ms"
      have "highlightLoop now keys (?g1, ?ms1, r) = (g', ms', r')"
        using Cons.prems \<open>map_of ms j = Some e\<close> Some by simp
      note IH = Cons.IH [OF this]
      have p: "(getNode ?g1 n = None) = (getNode g n = None)" for n
        using Some by (simp add: getNode_addNode)
      have m: "map_of ?ms1 k = (if k = j then Some (e\<lparr>lastSeen := now\<rparr>) else map_of ms k)" for k
        by (simp add: update_conv')
      have r1: "refreshed now ?g1 keys ?ms1 k = refreshed now g (j # keys) ms k" for k
        using p Some \<open>map_of ms j = Some e\<close>
        by (auto simp: refreshed_def m split: option.splits)
      have e1: "expired now ?g1 keys ?ms1 = expired now g (j # keys) ms"
        using p Some \<open>map_of ms j = Some e\<close>
        by (auto simp: expired_def m)
      show ?thesis using IH p by (simp add: r1 e1)
    next
      case None
      let ?r1 = "if stale now e then r @ [j] else r"
      have "highlightLoop now keys (g, ms, ?r1) = (g', ms', r')"
        using Cons.prems \<open>map_of ms j = Some e\<close> None
        by (simp add: stale_def split: if_splits)
      note IH = Cons.IH [OF this]
      have r1: "refreshed now g keys ms k = refreshed now g (j # keys) ms k" for k
        using None \<open>map_of ms j = Some e\<close>
        by (auto simp: refreshed_def split: option.splits)
      have e1: "set ?r1 \<union> expired now g keys ms = set r \<union> expired now g (j # keys) ms"
        using None \<open>map_of ms j = Some e\<close>
        by (auto simp: expired_def)
      show ?thesis using IH by (simp only: r1 e1) simp
    qed
  qed
qed

lemma map_of_fold_delete:
  "map_of (fold AList.delete ks ms) k = (if k \<in> set ks then None else map_of ms k)"
  by (induction ks arbitrary: ms) (auto simp: delete_conv')

text \<open>
  Claim C8. One pass of \<^verbatim>\<open>highlightMilestones\<close> treats every entry of
  \<^verbatim>\<open>_msIndexToNode\<close> by the node it names: when the node is in the graph the entry stays
  and its \<^verbatim>\<open>lastSeen\<close> becomes the time of the pass; when the node is not in the graph the
  entry is removed exactly when its \<^verbatim>\<open>lastSeen\<close> is more than 300000 ms before the pass,
  and stays unchanged otherwise. Indices without an entry get none.
\<close>

theorem C8_milestone_entry_expiry:
  "map_of (msIndexToNode (highlightMilestones now v)) k =
     (case map_of (msIndexToNode v) k of
        None \<Rightarrow> None
      | Some e \<Rightarrow>
          if getNode (graph v) (msNodeId e) \<noteq> None then Some (e\<lparr>lastSeen := now\<rparr>)
          else if int now - int (lastSeen e) > 300000 then None
          else Some e)"
proof -
  obtain g' ms' r' where
    h: "highlightLoop now (sort (map fst (msIndexToNode v))) (graph v, msIndexToNode v, [])
        = (g', ms', r')"
    by (metis prod_cases3)
  note s = highlightLoop_spec [OF h]
  have keys: "k \<in> set (sort (map fst (msIndexToNode v)))" if "map_of (msIndexToNode v) k = Some e" for e
    using that by (auto dest: map_of_SomeD intro: rev_image_eqI)
  have "map_of (msIndexToNode (highlightMilestones now v)) k
        = (if k \<in> set r' then None else map_of ms' k)"
    by (simp add: highlightMilestones_def h map_of_fold_delete)
  then show ?thesis
    using s keys
    by (auto simp: refreshed_def expired_def stale_def split: option.splits)
qed

theorem C8_milestone_entry_witness:
  "map_of (msIndexToNode (highlightMilestones 400000
      (newVisualizer Og\<lparr>graph := \<lparr>nodes = [(''M'', \<lparr>feedItem = msItem ''M'' 7, added = 10,
                                                graphId = None\<rparr>)], links = []\<rparr>,
        msIndexToNode := [(7, \<lparr>msNodeId = ''M'', lastSeen = 10\<rparr>),
                          (5, \<lparr>msNodeId = ''G'', lastSeen = 99999\<rparr>),
                          (6, \<lparr>msNodeId = ''G'', lastSeen = 100000\<rparr>)]\<rparr>))) 7
     = Some \<lparr>msNodeId = ''M'', lastSeen = 400000\<rparr>
   \<and> map_of (msIndexToNode (highlightMilestones 400000
      (newVisualizer Og\<lparr>graph := \<lparr>nodes = [(''M'', \<lparr>feedItem = msItem ''M'' 7, added = 10,
                                                graphId = None\<rparr>)], links = []\<rparr>,
        msIndexToNode := [(7, \<lparr>msNodeId = ''M'', lastSeen = 10\<rparr>),
                          (5, \<lparr>msNodeId = ''G'', lastSeen = 99999\<rparr>),
                          (6, \<lparr>msNodeId = ''G'', lastSeen = 100000\<rparr>)]\<rparr>))) 5
     = None
   \<and> map_of (msIndexToNode (highlightMilestones 400000
      (newVisualizer Og\<lparr>graph := \<lparr>nodes = [(''M'', \<lparr>feedItem = msItem ''M'' 7, added = 10,
                                                graphId = None\<rparr>)], links = []\<rparr>,
        msIndexToNode := [(7, \<lparr>msNodeId = ''M'', lastSeen = 10\<rparr>),
                          (5, \<lparr>msNodeId = ''G'', lastSeen = 99999\<rparr>),
                          (6, \<lparr>msNodeId = ''G'', lastSeen = 100000\<rparr>)]\<rparr>))) 6
     = Some \<lparr>msNodeId = ''G'', lastSeen = 100000\<rparr>"
proof -
  let ?v = "newVisualizer Og\<lparr>graph := \<lparr>nodes = [(''M'', \<lparr>feedItem = msItem ''M'' 7, added = 10,
                                                graphId = None\<rparr>)], links = []\<rparr>,
        msIndexToNode := [(7, \<lparr>msNodeId = ''M'', lastSeen = 10\<rparr>),
                          (5, \<lparr>msNodeId = ''G'', lastSeen = 99999\<rparr>),
                          (6, \<lparr>msNodeId = ''G'', lastSeen = 100000\<rparr>)]\<rparr>"
  show ?thesis
    using C8_milestone_entry_expiry [of 400000 ?v 7] C8_milestone_entry_expiry [of 400000 ?v 5]
      C8_milestone_entry_expiry [of 400000 ?v 6]
    by (simp add: newVisualizer_def getNode_def)
qed

section \<open>Properties of the small-network pruning\<close>

subsection \<open>Graphs up to their marks\<close>

lemma adjacent_sym: "(a, b) \<in> adjacent g \<Longrightarrow> (b, a) \<in> adjacent g"
  by (auto simp: adjacent_def)

lemma adjacent_links:
  "((n, b) \<in> adjacent g) = (\<exists>l\<in>set (nodeLinks g n). b = linkedNodeId n l)"
proof
  assume "(n, b) \<in> adjacent g"
  then consider "(n, b) \<in> set (links g)" | "(b, n) \<in> set (links g)"
    by (auto simp: adjacent_def)
  then show "\<exists>l\<in>set (nodeLinks g n). b = linkedNodeId n l"
  proof cases
    case 1
    then show ?thesis
      by (intro bexI [of _ "(n, b)"]) (simp_all add: nodeLinks_def touches_def linkedNodeId_def)
  next
    case 2
    then show ?thesis
      by (intro bexI [of _ "(b, n)"]) (simp_all add: nodeLinks_def touches_def linkedNodeId_def)
  qed
next
  assume "\<exists>l\<in>set (nodeLinks g n). b = linkedNodeId n l"
  then obtain l where "l \<in> set (links g)" "touches n l" "b = linkedNodeId n l"
    by (auto simp: nodeLinks_def)
  then show "(n, b) \<in> adjacent g"
    by (cases l) (auto simp: adjacent_def touches_def linkedNodeId_def split: if_splits)
qed

lemma map_update_same:
  "map_of xs n = Some d \<Longrightarrow> f (n, d') = f (n, d) \<Longrightarrow> map f (AList.update n d' xs) = map f xs"
  by (induction xs) (auto split: if_splits)

lemma links_clearGraphIds: "links (clearGraphIds g) = links g"
  by (simp add: clearGraphIds_def)

lemma nodeIds_clearGraphIds: "nodeIds (clearGraphIds g) = nodeIds g"
  by (simp add: clearGraphIds_def nodeIds_def case_prod_beta comp_def)

lemma getNode_clearGraphIds:
  "getNode (clearGraphIds g) n = map_option (\<lambda>d. d\<lparr>graphId := None\<rparr>) (getNode g n)"
  by (simp add: clearGraphIds_def getNode_def map_of_map)

lemma addedOf_clearGraphIds: "addedOf (clearGraphIds g) n = addedOf g n"
  by (cases "getNode g n") (simp_all add: addedOf_def getNode_clearGraphIds)

lemma same_shape:
  assumes "clearGraphIds g' = clearGraphIds g"
  shows "links g' = links g" and "nodeIds g' = nodeIds g" and "adjacent g' = adjacent g"
    and "wellFormed g' = wellFormed g" and "addedOf g' = addedOf g"
    and "component g' = component g" and "nodeLinks g' = nodeLinks g"
    and "(getNode g' n = None) = (getNode g n = None)"
proof -
  show l: "links g' = links g"
    using assms links_clearGraphIds by metis
  show i: "nodeIds g' = nodeIds g"
    using assms nodeIds_clearGraphIds by metis
  show a: "adjacent g' = adjacent g"
    by (simp add: adjacent_def l)
  show "wellFormed g' = wellFormed g"
    by (simp add: wellFormed_def l i)
  show "addedOf g' = addedOf g"
    using assms addedOf_clearGraphIds by (metis ext)
  show "component g' = component g"
    by (simp add: component_def a fun_eq_iff)
  show "nodeLinks g' = nodeLinks g"
    by (simp add: nodeLinks_def l fun_eq_iff)
  show "(getNode g' n = None) = (getNode g n = None)"
    using getNode_clearGraphIds [of g n] getNode_clearGraphIds [of g' n] assms
    by (cases "getNode g n"; cases "getNode g' n") simp_all
qed

lemma clearGraphIds_mark:
  assumes "getNode g n = Some d"
  shows "clearGraphIds (addNode n (d\<lparr>graphId := x\<rparr>) g) = clearGraphIds g"
  using assms
  by (simp add: clearGraphIds_def addNode_def getNode_def map_update_same)

lemma markedSet_mark:
  assumes "getNode g n = Some d"
  shows "markedSet (addNode n (d\<lparr>graphId := Some (Suc k)\<rparr>) g) = insert n (markedSet g)"
  by (auto simp: markedSet_def getNode_addNode hasGraphId_def)

lemma visitLinked_spec:
  assumes "\<forall>l\<in>set ls. getNode g (linkedNodeId n l) \<noteq> None"
  shows "\<exists>q'. visitLinked g n ls q = Some q'
           \<and> set q' = set q \<union> {m. (\<exists>l\<in>set ls. m = linkedNodeId n l) \<and> m \<notin> markedSet g}
           \<and> (distinct q \<longrightarrow> distinct q')"
  using assms
proof (induction ls arbitrary: q)
  case Nil
  then show ?case by simp
next
  case (Cons l ls)
  obtain d where d: "getNode g (linkedNodeId n l) = Some d"
    using Cons.prems by auto
  let ?q1 = "if \<not> hasGraphId d \<and> linkedNodeId n l \<notin> set q then q @ [linkedNodeId n l] else q"
  obtain q' where q': "visitLinked g n ls ?q1 = Some q'"
    "set q' = set ?q1 \<union> {m. (\<exists>l\<in>set ls. m = linkedNodeId n l) \<and> m \<notin> markedSet g}"
    "distinct ?q1 \<longrightarrow> distinct q'"
    using Cons.IH [of ?q1] Cons.prems by auto
  have m: "(linkedNodeId n l \<in> markedSet g) = hasGraphId d"
    using d by (simp add: markedSet_def)
  have "visitLinked g n (l # ls) q = Some q'"
    using d q'(1) by simp
  moreover have "set q' = set q \<union> {m. (\<exists>l\<in>set (l # ls). m = linkedNodeId n l) \<and> m \<notin> markedSet g}"
    unfolding q'(2) using m by auto
  moreover have "distinct q \<longrightarrow> distinct q'"
    using q'(3) by auto
  ultimately show ?case by blast
qed

lemma Max_insert_max:
  "finite S \<Longrightarrow> Max (insert (if a > m then a else m) S) = Max (insert m (insert a S))"
  for a m :: nat
  by (cases "S = {}") (auto simp: max_def)

lemma subGraphLoop_spec:
  assumes "wellFormed g" and "[] \<notin> set (nodeIds g)"
    and "set q \<subseteq> set (nodeIds g)" and "set q \<inter> markedSet g = {}" and "distinct q"
    and "\<forall>a\<in>set vs. \<forall>b. (a, b) \<in> adjacent g \<longrightarrow> b \<in> markedSet g \<union> set q"
  shows "\<exists>g' new m'. subGraphLoop k g q vs m = Some (g', vs @ new, m')
          \<and> clearGraphIds g' = clearGraphIds g
          \<and> markedSet g' = markedSet g \<union> set new
          \<and> set new \<inter> markedSet g = {} \<and> distinct new
          \<and> set q \<subseteq> set new
          \<and> (\<forall>x\<in>set new. \<exists>s\<in>set q. (s, x) \<in> (adjacent g)\<^sup>*)
          \<and> (\<forall>a\<in>set (vs @ new). \<forall>b. (a, b) \<in> adjacent g \<longrightarrow> b \<in> markedSet g')
          \<and> m' = Max (insert m (addedOf g ` set new))"
  using assms
proof (induction k g q vs m rule: subGraphLoop.induct)
  case (1 k g vs m)
  then show ?case by simp
next
  case (2 k g n q vs m)
  have n_node: "n \<in> set (nodeIds g)" and n_unmarked: "n \<notin> markedSet g"
    and n_q: "n \<notin> set q" and dq: "distinct q"
    using "2.prems" by auto
  have ne: "n \<noteq> []" using n_node "2.prems"(2) by auto
  obtain d where d: "getNode g n = Some d"
    using n_node getNode_nodeIds [of g n] by auto
  have nh: "\<not> hasGraphId d"
    using n_unmarked d by (simp add: markedSet_def)
  define g1 where "g1 = addNode n (d\<lparr>graphId := Some (Suc k)\<rparr>) g"
  define mrc where "mrc = (if added d > m then added d else m)"
  have clear1: "clearGraphIds g1 = clearGraphIds g"
    unfolding g1_def by (rule clearGraphIds_mark [OF d])
  note shape = same_shape [OF clear1]
  have marked1: "markedSet g1 = insert n (markedSet g)"
    unfolding g1_def by (rule markedSet_mark [OF d])
  have wf1: "wellFormed g1"
    using shape(4) "2.prems"(1) by simp
  have ends: "\<forall>l\<in>set (nodeLinks g1 n). getNode g1 (linkedNodeId n l) \<noteq> None"
  proof
    fix l assume "l \<in> set (nodeLinks g1 n)"
    then have "l \<in> set (links g1)" by (simp add: nodeLinks_def)
    then have "fst l \<in> set (nodeIds g1)" "snd l \<in> set (nodeIds g1)"
      using wf1 by (auto simp: wellFormed_def)
    then show "getNode g1 (linkedNodeId n l) \<noteq> None"
      by (auto simp: linkedNodeId_def dest: nodeIds_getNode)
  qed
  obtain q1 where q1: "visitLinked g1 n (nodeLinks g1 n) q = Some q1"
    and set_q1: "set q1 = set q \<union> {b. (\<exists>l\<in>set (nodeLinks g1 n). b = linkedNodeId n l) \<and> b \<notin> markedSet g1}"
    and dq1: "distinct q1"
    using visitLinked_spec [OF ends, of q] dq by blast
  have set_q1': "set q1 = set q \<union> {b. (n, b) \<in> adjacent g \<and> b \<notin> markedSet g1}"
    unfolding set_q1 using adjacent_links [of n _ g1] shape(3) by auto
  have adj_nodes: "b \<in> set (nodeIds g)" if "(a, b) \<in> adjacent g" for a b
    using that "2.prems"(1) by (auto simp: adjacent_def wellFormed_def)
  have p2: "[] \<notin> set (nodeIds g1)"
    using "2.prems"(2) by (simp add: shape(2))
  have p3: "set q1 \<subseteq> set (nodeIds g1)"
    using "2.prems"(3) adj_nodes by (auto simp: set_q1' shape(2))
  have p4: "set q1 \<inter> markedSet g1 = {}"
    using "2.prems"(4) n_q by (auto simp: set_q1' marked1)
  have p6: "\<forall>a\<in>set (vs @ [n]). \<forall>b. (a, b) \<in> adjacent g1 \<longrightarrow> b \<in> markedSet g1 \<union> set q1"
    using "2.prems"(6) by (auto simp: set_q1' marked1 shape(3))
  have "\<exists>g' new m'. subGraphLoop k g1 q1 (vs @ [n]) mrc = Some (g', (vs @ [n]) @ new, m')
          \<and> clearGraphIds g' = clearGraphIds g1
          \<and> markedSet g' = markedSet g1 \<union> set new
          \<and> set new \<inter> markedSet g1 = {} \<and> distinct new
          \<and> set q1 \<subseteq> set new
          \<and> (\<forall>x\<in>set new. \<exists>s\<in>set q1. (s, x) \<in> (adjacent g1)\<^sup>*)
          \<and> (\<forall>a\<in>set ((vs @ [n]) @ new). \<forall>b. (a, b) \<in> adjacent g1 \<longrightarrow> b \<in> markedSet g')
          \<and> m' = Max (insert mrc (addedOf g1 ` set new))"
    by (rule "2.IH"(2) [OF ne d nh g1_def mrc_def q1 wf1 p2 p3 p4 dq1 p6])
  then obtain g' new m' where
    r: "subGraphLoop k g1 q1 (vs @ [n]) mrc = Some (g', (vs @ [n]) @ new, m')"
    and c: "clearGraphIds g' = clearGraphIds g1"
    and ms: "markedSet g' = markedSet g1 \<union> set new"
    and nm: "set new \<inter> markedSet g1 = {}" and dn: "distinct new"
    and qn: "set q1 \<subseteq> set new"
    and reach: "\<forall>x\<in>set new. \<exists>s\<in>set q1. (s, x) \<in> (adjacent g1)\<^sup>*"
    and closed: "\<forall>a\<in>set ((vs @ [n]) @ new). \<forall>b. (a, b) \<in> adjacent g1 \<longrightarrow> b \<in> markedSet g'"
    and mx: "m' = Max (insert mrc (addedOf g1 ` set new))"
    by blast
  have res: "subGraphLoop k g (n # q) vs m = Some (g', vs @ (n # new), m')"
    using ne d nh q1 r by (simp add: g1_def mrc_def Let_def)
  have reach': "\<forall>x\<in>set (n # new). \<exists>s\<in>set (n # q). (s, x) \<in> (adjacent g)\<^sup>*"
  proof
    fix x assume x: "x \<in> set (n # new)"
    show "\<exists>s\<in>set (n # q). (s, x) \<in> (adjacent g)\<^sup>*"
    proof (cases "x = n")
      case True
      then show ?thesis by auto
    next
      case False
      then obtain s where s: "s \<in> set q1" "(s, x) \<in> (adjacent g)\<^sup>*"
        using x reach shape(3) by auto
      show ?thesis
      proof (cases "s \<in> set q")
        case True
        then show ?thesis using s by auto
      next
        case False
        then have "(n, s) \<in> adjacent g" using s(1) by (auto simp: set_q1')
        then have "(n, x) \<in> (adjacent g)\<^sup>*" using s(2) by (rule converse_rtrancl_into_rtrancl)
        then show ?thesis by auto
      qed
    qed
  qed
  have mx': "m' = Max (insert m (addedOf g ` set (n # new)))"
    unfolding mx mrc_def shape(5) using d by (simp add: Max_insert_max addedOf_def)
  show ?case
    apply (intro exI [of _ g'] exI [of _ "n # new"] exI [of _ m'] conjI)
    subgoal by (rule res)
    subgoal using c clear1 by simp
    subgoal using ms marked1 by auto
    subgoal using nm marked1 n_unmarked by auto
    subgoal using nm marked1 dn by auto
    subgoal using qn set_q1' by auto
    subgoal by (rule reach')
    subgoal using closed shape(3) by auto
    subgoal by (rule mx')
    done
qed

subsection \<open>Discovery of the components\<close>

lemma component_refl: "n \<in> component g n"
  by (simp add: component_def)

lemma component_closed: "closedSet g (component g n)"
  by (auto simp: closedSet_def component_def intro: rtrancl_into_rtrancl)

lemma component_least:
  assumes "n \<in> K" and "\<forall>a\<in>K. \<forall>b. (a, b) \<in> adjacent g \<longrightarrow> b \<in> K"
  shows "component g n \<subseteq> K"
proof
  fix m assume "m \<in> component g n"
  then have "(n, m) \<in> (adjacent g)\<^sup>*" by (simp add: component_def)
  then show "m \<in> K"
    by (induction rule: rtrancl_induct) (use assms in auto)
qed

lemma component_sym: "m \<in> component g n \<Longrightarrow> n \<in> component g m"
proof -
  assume "m \<in> component g n"
  then have "(n, m) \<in> (adjacent g)\<^sup>*" by (simp add: component_def)
  then have "(m, n) \<in> (adjacent g)\<^sup>*"
    by (induction rule: rtrancl_induct)
      (auto intro: converse_rtrancl_into_rtrancl adjacent_sym)
  then show ?thesis by (simp add: component_def)
qed

lemma component_eq: "m \<in> component g n \<Longrightarrow> component g m = component g n"
proof -
  assume m: "m \<in> component g n"
  have "component g a \<subseteq> component g b" if "a \<in> component g b" for a b
    using that by (auto simp: component_def)
  then show ?thesis using m component_sym [OF m] by blast
qed

lemma component_nodes:
  assumes "wellFormed g" and "n \<in> set (nodeIds g)"
  shows "component g n \<subseteq> set (nodeIds g)"
  using assms
  by (intro component_least) (auto simp: adjacent_def wellFormed_def)

lemma closedSet_Un: "closedSet g A \<Longrightarrow> closedSet g B \<Longrightarrow> closedSet g (A \<union> B)"
  by (auto simp: closedSet_def)

lemma Max_insert_0: "finite S \<Longrightarrow> S \<noteq> {} \<Longrightarrow> Max (insert 0 S) = Max S" for S :: "nat set"
  by simp

lemma calculateSubGraph_spec:
  assumes wf: "wellFormed g" and ne: "[] \<notin> set (nodeIds g)"
    and s: "s \<in> set (nodeIds g)" and su: "s \<notin> markedSet g"
    and cl: "closedSet g (markedSet g)"
  shows "\<exists>g' sg. calculateSubGraph g s k = Some (g', sg)
          \<and> clearGraphIds g' = clearGraphIds g
          \<and> markedSet g' = markedSet g \<union> component g s
          \<and> set (sgNodes sg) = component g s
          \<and> distinct (sgNodes sg)
          \<and> mostRecentChange sg = mostRecent g (component g s)"
proof -
  obtain g' new m' where
    r: "subGraphLoop k g [s] [] 0 = Some (g', [] @ new, m')"
    and c: "clearGraphIds g' = clearGraphIds g"
    and ms: "markedSet g' = markedSet g \<union> set new"
    and nm: "set new \<inter> markedSet g = {}" and dn: "distinct new"
    and qn: "set [s] \<subseteq> set new"
    and reach: "\<forall>x\<in>set new. \<exists>t\<in>set [s]. (t, x) \<in> (adjacent g)\<^sup>*"
    and closed: "\<forall>a\<in>set ([] @ new). \<forall>b. (a, b) \<in> adjacent g \<longrightarrow> b \<in> markedSet g'"
    and mx: "m' = Max (insert 0 (addedOf g ` set new))"
    using subGraphLoop_spec [OF wf ne, of "[s]" "[]" k 0] s su by auto
  have sub: "set new \<subseteq> component g s"
    using reach by (auto simp: component_def)
  have "\<forall>a\<in>set new. \<forall>b. (a, b) \<in> adjacent g \<longrightarrow> b \<in> set new"
  proof (intro ballI allI impI)
    fix a b assume a: "a \<in> set new" and ab: "(a, b) \<in> adjacent g"
    have "b \<in> markedSet g \<union> set new" using closed a ab ms by auto
    moreover have "b \<notin> markedSet g"
    proof
      assume "b \<in> markedSet g"
      then have "a \<in> markedSet g" using cl adjacent_sym [OF ab] by (auto simp: closedSet_def)
      then show False using a nm by auto
    qed
    ultimately show "b \<in> set new" by auto
  qed
  then have "component g s \<subseteq> set new"
    using qn by (intro component_least) auto
  then have eq: "set new = component g s" using sub by auto
  have "m' = Max (addedOf g ` set new)"
    unfolding mx using qn by (intro Max_insert_0) auto
  then show ?thesis
    using r c ms dn eq by (simp add: calculateSubGraph_def mostRecent_def)
qed

lemma isComponent_shape:
  "clearGraphIds g' = clearGraphIds g \<Longrightarrow> isComponent g' sg = isComponent g sg"
  using same_shape(2,5,6) [of g' g] by (simp add: isComponent_def mostRecent_def)

lemma closedSet_shape:
  "clearGraphIds g' = clearGraphIds g \<Longrightarrow> closedSet g' K = closedSet g K"
  using same_shape(3) [of g' g] by (simp add: closedSet_def)

lemma discover_spec:
  assumes "wellFormed g" and "[] \<notin> set (nodeIds g)" and "closedSet g (markedSet g)"
    and "\<forall>sg\<in>set subs. isComponent g sg"
    and "markedSet g = (\<Union>sg\<in>set subs. set (sgNodes sg))"
  shows "\<exists>g' c' subs'. discover ns (g, c, subs) = Some (g', c', subs')
          \<and> clearGraphIds g' = clearGraphIds g
          \<and> (\<forall>sg\<in>set subs'. isComponent g sg)
          \<and> markedSet g' = (\<Union>sg\<in>set subs'. set (sgNodes sg))
          \<and> set ns \<inter> set (nodeIds g) \<subseteq> markedSet g'
          \<and> markedSet g \<subseteq> markedSet g'
          \<and> closedSet g (markedSet g')"
  using assms
proof (induction ns arbitrary: g c subs)
  case Nil
  then show ?case by simp
next
  case (Cons n ns)
  show ?case
  proof (cases "getNode g n")
    case None
    then have "n \<notin> set (nodeIds g)" using getNode_nodeIds [of g n] by simp
    moreover have "discover (n # ns) (g, c, subs) = discover ns (g, c, subs)"
      using None by simp
    ultimately show ?thesis
      using Cons.IH [OF Cons.prems, of c] by auto
  next
    case (Some d)
    then have n: "n \<in> set (nodeIds g)" using getNode_nodeIds [of g n] by simp
    show ?thesis
    proof (cases "hasGraphId d")
      case True
      then have "n \<in> markedSet g" using Some by (simp add: markedSet_def)
      moreover have "discover (n # ns) (g, c, subs) = discover ns (g, c, subs)"
        using Some True by simp
      ultimately show ?thesis
        using Cons.IH [OF Cons.prems, of c] by auto
    next
      case False
      then have nu: "n \<notin> markedSet g" using Some by (simp add: markedSet_def)
      obtain g1 sg where
        cs: "calculateSubGraph g n c = Some (g1, sg)"
        and c1: "clearGraphIds g1 = clearGraphIds g"
        and m1: "markedSet g1 = markedSet g \<union> component g n"
        and sgs: "set (sgNodes sg) = component g n"
        and sgd: "distinct (sgNodes sg)"
        and sgm: "mostRecentChange sg = mostRecent g (component g n)"
        using calculateSubGraph_spec [OF Cons.prems(1,2) n nu Cons.prems(3), of c] by blast
      note shape = same_shape [OF c1]
      have comp: "isComponent g sg"
        using n sgs sgd sgm by (auto simp: isComponent_def)
      have p1: "wellFormed g1" using Cons.prems(1) shape(4) by simp
      have p2: "[] \<notin> set (nodeIds g1)" using Cons.prems(2) shape(2) by simp
      have p3: "closedSet g1 (markedSet g1)"
        unfolding closedSet_shape [OF c1] m1
        by (rule closedSet_Un [OF Cons.prems(3) component_closed])
      have p4: "\<forall>sg\<in>set (subs @ [sg]). isComponent g1 sg"
        using Cons.prems(4) comp by (auto simp: isComponent_shape [OF c1])
      have p5: "markedSet g1 = (\<Union>sg\<in>set (subs @ [sg]). set (sgNodes sg))"
        using Cons.prems(5) m1 sgs by auto
      obtain g' c' subs' where
        r: "discover ns (g1, Suc c, subs @ [sg]) = Some (g', c', subs')"
        and r1: "clearGraphIds g' = clearGraphIds g1"
        and r2: "\<forall>sg\<in>set subs'. isComponent g1 sg"
        and r3: "markedSet g' = (\<Union>sg\<in>set subs'. set (sgNodes sg))"
        and r4: "set ns \<inter> set (nodeIds g1) \<subseteq> markedSet g'"
        and r5: "markedSet g1 \<subseteq> markedSet g'"
        and r6: "closedSet g1 (markedSet g')"
        using Cons.IH [OF p1 p2 p3 p4 p5, of "Suc c"] by blast
      have "discover (n # ns) (g, c, subs) = Some (g', c', subs')"
        using Some False cs r by simp
      moreover have "n \<in> markedSet g'"
        using r5 m1 component_refl [of n g] by auto
      ultimately show ?thesis
        using r1 r2 r3 r4 r5 r6 c1 m1
        by (auto simp: isComponent_shape [OF c1] closedSet_shape [OF c1] shape(2))
    qed
  qed
qed

subsection \<open>Removing a closed set of nodes\<close>

lemma nodeIds_removeNode: "set (nodeIds (removeNode m g)) = set (nodeIds g) - {m}"
proof (cases "getNode g m")
  case None
  then have "m \<notin> set (nodeIds g)" using getNode_nodeIds [of g m] by simp
  then show ?thesis using None by (simp add: removeNode_def)
next
  case (Some d)
  then show ?thesis
    by (auto simp: removeNode_def nodeIds_def AList.delete_eq)
qed

lemma links_removeNode: "set (links (removeNode m g)) \<subseteq> set (links g)"
  by (auto simp: removeNode_def split: option.splits)

lemma wellFormed_removeNode: "wellFormed g \<Longrightarrow> wellFormed (removeNode m g)"
proof (cases "getNode g m")
  case None
  then show "wellFormed g \<Longrightarrow> wellFormed (removeNode m g)" by (simp add: removeNode_def)
next
  case (Some d)
  assume wf: "wellFormed g"
  have "distinct (map fst (AList.delete m (nodes g)))"
    using wf by (simp add: wellFormed_def nodeIds_def distinct_delete)
  moreover have "fst l \<in> set (nodeIds (removeNode m g)) \<and> snd l \<in> set (nodeIds (removeNode m g))"
    if "l \<in> set (links (removeNode m g))" for l
  proof -
    have "l \<in> set (links g)" "\<not> touches m l"
      using that Some by (auto simp: removeNode_def)
    then show ?thesis
      using wf by (auto simp: nodeIds_removeNode wellFormed_def touches_def)
  qed
  ultimately show "wellFormed (removeNode m g)"
    using Some by (auto simp: wellFormed_def removeNode_def nodeIds_def)
qed

lemma wellFormed_removeLink: "wellFormed g \<Longrightarrow> wellFormed (removeLink l g)"
  by (auto simp: wellFormed_def removeLink_def nodeIds_def dest: notin_set_remove1)

lemma closedSet_links:
  "closedSet g K = (\<forall>l\<in>set (links g). (fst l \<in> K) = (snd l \<in> K))"
  unfolding closedSet_def adjacent_def by (auto; blast)

lemma closedSet_mono:
  "closedSet g K \<Longrightarrow> set (links g') \<subseteq> set (links g) \<Longrightarrow> closedSet g' K"
  by (auto simp: closedSet_links)

lemma filter_remove1_other: "\<not> P l \<Longrightarrow> filter P (remove1 l xs) = filter P xs"
  by (induction xs) auto

lemma without_removeLink:
  assumes "fst l \<in> K \<or> snd l \<in> K"
  shows "without K (removeLink l g) = without K g"
  using assms by (simp add: without_def removeLink_def filter_remove1_other)

lemma filter_delete_other:
  "\<not> P m \<Longrightarrow> filter (\<lambda>e. P (fst e)) (AList.delete m xs) = filter (\<lambda>e. P (fst e)) xs"
  by (induction xs) auto

lemma without_removeNode:
  assumes "m \<in> K"
  shows "without K (removeNode m g) = without K g"
proof (cases "getNode g m")
  case None
  then show ?thesis by (simp add: removeNode_def)
next
  case (Some d)
  have "filter (\<lambda>l. fst l \<notin> K \<and> snd l \<notin> K) (filter (\<lambda>l. \<not> touches m l) (links g))
        = filter (\<lambda>l. fst l \<notin> K \<and> snd l \<notin> K) (links g)"
    unfolding filter_filter using assms by (intro filter_cong) (auto simp: touches_def)
  then show ?thesis
    using Some assms filter_delete_other [of "\<lambda>n. n \<notin> K" m "nodes g"]
    by (simp add: without_def removeNode_def)
qed

lemma without_none:
  assumes "wellFormed g" and "set (nodeIds g) \<inter> K = {}"
  shows "without K g = g"
proof -
  have "filter (\<lambda>e. fst e \<notin> K) (nodes g) = nodes g"
    using assms(2) by (intro filter_True) (auto simp: nodeIds_def)
  moreover have "filter (\<lambda>l. fst l \<notin> K \<and> snd l \<notin> K) (links g) = links g"
    using assms by (intro filter_True) (auto simp: wellFormed_def)
  ultimately show ?thesis by (simp add: without_def)
qed

lemma removeLinked_spec:
  assumes "wellFormed g" and "closedSet g K" and "t \<in> K"
  shows "\<exists>g' ms'. removeLinked t i (g, ms) = Some (g', ms')
          \<and> wellFormed g' \<and> without K g' = without K g
          \<and> set (links g') \<subseteq> set (links g) \<and> set (nodeIds g') \<subseteq> set (nodeIds g)"
  using assms
proof (induction t i "(g, ms)" arbitrary: g ms rule: removeLinked.induct)
  case (1 t i g ms)
  show ?case
  proof (cases "i < length (nodeLinks g t)")
    case False
    then show ?thesis using "1.prems"(1) by (simp add: removeLinked.simps [of t i g ms])
  next
    case True
    define link where "link = nodeLinks g t ! i"
    define linkedId where "linkedId = linkedNodeId t link"
    have lin: "link \<in> set (nodeLinks g t)"
      using True by (simp add: link_def)
    then have l: "link \<in> set (links g)" and tl: "touches t link"
      by (simp_all add: nodeLinks_def)
    have adj: "(t, linkedId) \<in> adjacent g"
      using adjacent_links [of t linkedId g] lin by (auto simp: linkedId_def)
    then have lk: "linkedId \<in> K"
      using "1.prems"(2,3) by (auto simp: closedSet_def)
    have "linkedId \<in> set (nodeIds g)"
      using l "1.prems"(1) by (auto simp: wellFormed_def linkedId_def linkedNodeId_def)
    then obtain linkedNode where ln: "getNode g linkedId = Some linkedNode"
      using nodeIds_getNode by blast
    define g1 where "g1 = removeLink link g"
    have wf1: "wellFormed g1"
      unfolding g1_def by (rule wellFormed_removeLink [OF "1.prems"(1)])
    have l1: "set (links g1) \<subseteq> set (links g)"
      using set_remove1_subset [of link "links g"] by (simp add: g1_def removeLink_def)
    have n1: "nodeIds g1 = nodeIds g"
      by (simp add: g1_def removeLink_def nodeIds_def)
    have w1: "without K g1 = without K g"
      unfolding g1_def using tl "1.prems"(3) by (intro without_removeLink) (auto simp: touches_def)
    have cl1: "closedSet g1 K"
      by (rule closedSet_mono [OF "1.prems"(2) l1])
    show ?thesis
    proof (cases "length (nodeLinks g1 linkedId) = 0")
      case z: True
      define g2 where "g2 = removeNode linkedId g1"
      define ms2 where "ms2 = (case metaMS (feedItem linkedNode) of None \<Rightarrow> ms
                               | Some k \<Rightarrow> if k \<noteq> 0 then AList.delete k ms else ms)"
      have wf2: "wellFormed g2"
        unfolding g2_def by (rule wellFormed_removeNode [OF wf1])
      have l2: "set (links g2) \<subseteq> set (links g1)"
        unfolding g2_def by (rule links_removeNode)
      have cl2: "closedSet g2 K"
        by (rule closedSet_mono [OF cl1 l2])
      have w2: "without K g2 = without K g"
        unfolding g2_def using w1 without_removeNode [OF lk] by simp
      have n2: "set (nodeIds g2) \<subseteq> set (nodeIds g)"
        unfolding g2_def using n1 by (auto simp: nodeIds_removeNode)
      obtain g' ms' where
        "removeLinked t (Suc i) (g2, ms2) = Some (g', ms')" "wellFormed g'"
        "without K g' = without K g2" "set (links g') \<subseteq> set (links g2)"
        "set (nodeIds g') \<subseteq> set (nodeIds g2)"
        using "1.hyps"(1) [OF True link_def linkedId_def ln g1_def z wf2 [unfolded g2_def]
            cl2 [unfolded g2_def] "1.prems"(3)]
        unfolding ms2_def g2_def by blast
      moreover have "removeLinked t i (g, ms) = removeLinked t (Suc i) (g2, ms2)"
        using True ln z
        by (simp add: removeLinked.simps [of t i g ms] link_def linkedId_def g1_def g2_def
            ms2_def Let_def)
      ultimately show ?thesis using w2 l2 l1 n2 by auto
    next
      case nz: False
      obtain g' ms' where
        "removeLinked t (Suc i) (g1, ms) = Some (g', ms')" "wellFormed g'"
        "without K g' = without K g1" "set (links g') \<subseteq> set (links g1)"
        "set (nodeIds g') \<subseteq> set (nodeIds g1)"
        using "1.hyps"(2) [OF True link_def linkedId_def ln g1_def nz wf1 cl1 "1.prems"(3)]
        by blast
      moreover have "removeLinked t i (g, ms) = removeLinked t (Suc i) (g1, ms)"
        using True ln nz
        by (simp add: removeLinked.simps [of t i g ms] link_def linkedId_def g1_def Let_def)
      ultimately show ?thesis using w1 l1 n1 by auto
    qed
  qed
qed

lemma removeNodesLoop_spec:
  assumes "wellFormed g" and "closedSet g K" and "set q \<subseteq> K" and "[] \<notin> set q"
  shows "\<exists>g' ms'. removeNodesLoop q (g, ms) = Some (g', ms')
          \<and> wellFormed g' \<and> without K g' = without K g
          \<and> set (nodeIds g') \<subseteq> set (nodeIds g) - set q
          \<and> set (links g') \<subseteq> set (links g)"
  using assms
proof (induction q arbitrary: g ms)
  case Nil
  then show ?case by simp
next
  case (Cons t q)
  have t: "t \<in> K" "t \<noteq> []" using Cons.prems by auto
  obtain g1 ms1 where
    inner: "(case getNode g t of None \<Rightarrow> Some (g, ms)
             | Some node \<Rightarrow> removeLinked t 0 (g, ms)) = Some (g1, ms1)"
    and wf1: "wellFormed g1" and w1: "without K g1 = without K g"
    and l1: "set (links g1) \<subseteq> set (links g)" and n1: "set (nodeIds g1) \<subseteq> set (nodeIds g)"
  proof (cases "getNode g t")
    case None
    then show ?thesis using that [of g ms] Cons.prems(1) by simp
  next
    case (Some d)
    then show ?thesis
      using that removeLinked_spec [OF Cons.prems(1,2) t(1), of 0 ms] by auto
  qed
  define g2 where "g2 = removeNode t g1"
  have wf2: "wellFormed g2"
    unfolding g2_def by (rule wellFormed_removeNode [OF wf1])
  have l2: "set (links g2) \<subseteq> set (links g)"
    unfolding g2_def using links_removeNode [of t g1] l1 by auto
  have cl2: "closedSet g2 K"
    by (rule closedSet_mono [OF Cons.prems(2) l2])
  have w2: "without K g2 = without K g"
    unfolding g2_def using w1 without_removeNode [OF t(1)] by simp
  have n2: "set (nodeIds g2) \<subseteq> set (nodeIds g) - {t}"
    unfolding g2_def using n1 by (auto simp: nodeIds_removeNode)
  obtain g' ms' where
    "removeNodesLoop q (g2, ms1) = Some (g', ms')" "wellFormed g'"
    "without K g' = without K g2" "set (nodeIds g') \<subseteq> set (nodeIds g2) - set q"
    "set (links g') \<subseteq> set (links g2)"
    using Cons.IH [OF wf2 cl2, of ms1] Cons.prems(3,4) by auto
  moreover have "removeNodesLoop (t # q) (g, ms) = removeNodesLoop q (g2, ms1)"
    unfolding removeNodesLoop_step using t(2) inner by (simp add: g2_def)
  ultimately show ?case using w2 n2 l2 by auto
qed

lemma removeNodes_closed:
  assumes "wellFormed (graph v)" and "closedSet (graph v) K"
    and "set (removeNodesQ v) \<subseteq> K" and "K \<inter> set (nodeIds (graph v)) \<subseteq> set (removeNodesQ v)"
    and "[] \<notin> set (removeNodesQ v)"
  shows "\<exists>ms'. removeNodes v
           = Some (v\<lparr>graph := without K (graph v), msIndexToNode := ms', removeNodesQ := []\<rparr>)"
proof -
  obtain g' ms' where
    r: "removeNodesLoop (removeNodesQ v) (graph v, msIndexToNode v) = Some (g', ms')"
    and wf': "wellFormed g'" and w: "without K g' = without K (graph v)"
    and n: "set (nodeIds g') \<subseteq> set (nodeIds (graph v)) - set (removeNodesQ v)"
    using removeNodesLoop_spec [OF assms(1,2,3,5), of "msIndexToNode v"] by blast
  have "set (nodeIds g') \<inter> K = {}" using n assms(4) by auto
  then have "g' = without K (graph v)" using without_none [OF wf'] w by simp
  then have "removeNodes v
           = Some (v\<lparr>graph := without K (graph v), msIndexToNode := ms', removeNodesQ := []\<rparr>)"
    using r by (simp add: removeNodes_def)
  then show ?thesis by (rule exI)
qed

subsection \<open>One pass\<close>

lemma clearGraphIds_without: "clearGraphIds (without K g) = without K (clearGraphIds g)"
  by (simp add: clearGraphIds_def without_def filter_map comp_def case_prod_beta)

lemma nodeIds_without: "nodeIds (without K g) = filter (\<lambda>n. n \<notin> K) (nodeIds g)"
  by (simp add: nodeIds_def without_def filter_map comp_def)

lemma links_without:
  "links (without K g) = filter (\<lambda>l. fst l \<notin> K \<and> snd l \<notin> K) (links g)"
  by (simp add: without_def)

lemma wellFormed_without: "wellFormed g \<Longrightarrow> wellFormed (without K g)"
  by (auto simp: wellFormed_def nodeIds_without links_without)

lemma without_empty: "without {} g = g"
  by (simp add: without_def)

lemma getNode_without: "n \<notin> K \<Longrightarrow> getNode (without K g) n = getNode g n"
proof -
  have "n \<notin> K \<Longrightarrow> map_of (filter (\<lambda>e. fst e \<notin> K) xs) n = map_of xs n" for xs :: "(string \<times> nodeData) list"
    by (induction xs) auto
  then show "n \<notin> K \<Longrightarrow> getNode (without K g) n = getNode g n"
    by (simp add: getNode_def without_def)
qed

lemma adjacent_without:
  "adjacent (without K g) = {(a, b). (a, b) \<in> adjacent g \<and> a \<notin> K \<and> b \<notin> K}"
  by (auto simp: adjacent_def links_without)

lemma component_without:
  assumes "closedSet g K" and "n \<notin> K"
  shows "component (without K g) n = component g n"
proof
  show "component (without K g) n \<subseteq> component g n"
    by (auto simp: component_def adjacent_without intro: rtrancl_mono [THEN subsetD, rotated])
next
  have "(n, m) \<in> (adjacent g)\<^sup>* \<Longrightarrow> m \<notin> K \<and> (n, m) \<in> (adjacent (without K g))\<^sup>*" for m
  proof (induction rule: rtrancl_induct)
    case base
    then show ?case using assms(2) by simp
  next
    case (step y z)
    then have "z \<notin> K"
      using assms(1) adjacent_sym [of y z g] by (auto simp: closedSet_def)
    moreover have "(y, z) \<in> adjacent (without K g)"
      using step calculation by (simp add: adjacent_without)
    ultimately show ?case using step by (auto intro: rtrancl_into_rtrancl)
  qed
  then show "component g n \<subseteq> component (without K g) n"
    by (auto simp: component_def)
qed

lemma component_outside:
  assumes "closedSet g K" and "n \<notin> K"
  shows "component g n \<inter> K = {}"
proof -
  have "(n, m) \<in> (adjacent g)\<^sup>* \<Longrightarrow> m \<notin> K" for m
  proof (induction rule: rtrancl_induct)
    case base
    then show ?case using assms(2) by simp
  next
    case (step y z)
    then show ?case
      using assms(1) adjacent_sym [of y z g] by (auto simp: closedSet_def)
  qed
  then show ?thesis by (auto simp: component_def)
qed

lemma clearGraphIds_idem: "clearGraphIds (clearGraphIds g) = clearGraphIds g"
  by (simp add: clearGraphIds_def comp_def case_prod_beta)

lemma markedSet_clearGraphIds: "markedSet (clearGraphIds g) = {}"
  by (auto simp: markedSet_def getNode_clearGraphIds hasGraphId_def)

lemma markedSet_nodes: "markedSet g \<subseteq> set (nodeIds g)"
  using getNode_nodeIds by (auto simp: markedSet_def)

lemma smallComponent_shape:
  "clearGraphIds g' = clearGraphIds g \<Longrightarrow> smallComponent now len g' C = smallComponent now len g C"
  using same_shape(5) [of g' g] by (simp add: smallComponent_def mostRecent_def)

lemma prunable_shape:
  assumes "clearGraphIds (graph v') = clearGraphIds (graph v)"
    and "existingIdsV v' = existingIdsV v"
  shows "prunable now v' = prunable now v"
  using same_shape(2,6) [OF assms(1)] smallComponent_shape [OF assms(1)] assms(2)
  by (simp add: prunable_def)

lemma prunable_closed:
  assumes "wellFormed (graph v)"
  shows "closedSet (graph v) (prunable now v)"
  unfolding closedSet_def
proof (intro allI impI)
  fix a b assume ab: "a \<in> prunable now v \<and> (a, b) \<in> adjacent (graph v)"
  then have "b \<in> component (graph v) a"
    by (auto simp: component_def)
  then have "component (graph v) b = component (graph v) a"
    by (rule component_eq)
  moreover have "b \<in> set (nodeIds (graph v))"
    using ab assms by (auto simp: adjacent_def wellFormed_def)
  ultimately show "b \<in> prunable now v"
    using ab by (simp add: prunable_def)
qed

lemma isSmall_component:
  "isComponent g sg \<Longrightarrow> isSmall now len sg = smallComponent now len g (set (sgNodes sg))"
  by (simp add: isComponent_def isSmall_def smallComponent_def distinct_card)

lemma pass_spec:
  assumes wf: "wellFormed (graph v)" and ne: "[] \<notin> set (nodeIds (graph v))"
    and q: "removeNodesQ v = []"
  shows "\<exists>v'. smallNetworksPass now v = Some (prunable now v \<noteq> {}, v')
          \<and> clearGraphIds (graph v') = without (prunable now v) (clearGraphIds (graph v))
          \<and> existingIdsV v' = existingIdsV v \<and> removeNodesQ v' = []
          \<and> protocol v' = protocol v \<and> newItems v' = newItems v
          \<and> smallNetworkInterval v' = smallNetworkInterval v"
proof -
  define g0 where "g0 = clearGraphIds (graph v)"
  define len where "len = length (existingIdsV v)"
  have c0: "clearGraphIds g0 = clearGraphIds (graph v)"
    by (simp add: g0_def clearGraphIds_idem)
  note shape0 = same_shape [OF c0]
  have wf0: "wellFormed g0" using wf shape0(4) by simp
  have ne0: "[] \<notin> set (nodeIds g0)" using ne shape0(2) by simp
  have m0: "markedSet g0 = {}" by (simp add: g0_def markedSet_clearGraphIds)
  have "\<exists>g' c' subs'. discover (nodeIds g0) (g0, 0, []) = Some (g', c', subs')
          \<and> clearGraphIds g' = clearGraphIds g0
          \<and> (\<forall>sg\<in>set subs'. isComponent g0 sg)
          \<and> markedSet g' = (\<Union>sg\<in>set subs'. set (sgNodes sg))
          \<and> set (nodeIds g0) \<inter> set (nodeIds g0) \<subseteq> markedSet g'
          \<and> markedSet g0 \<subseteq> markedSet g'
          \<and> closedSet g0 (markedSet g')"
    by (rule discover_spec [OF wf0 ne0]) (simp_all add: m0 closedSet_def)
  then obtain g1 c' subs where
    d: "discover (nodeIds g0) (g0, 0, []) = Some (g1, c', subs)"
    and c1: "clearGraphIds g1 = clearGraphIds g0"
    and comps: "\<forall>sg\<in>set subs. isComponent g0 sg"
    and cover: "markedSet g1 = (\<Union>sg\<in>set subs. set (sgNodes sg))"
    and allm: "set (nodeIds g0) \<subseteq> markedSet g1"
    by auto
  note shape1 = same_shape [OF c1]
  have cover': "(\<Union>sg\<in>set subs. set (sgNodes sg)) = set (nodeIds g0)"
    using allm markedSet_nodes [of g1] cover shape1(2) by auto
  define small where "small = filter (isSmall now len) subs"
  define K where "K = prunable now v"
  have pr: "n \<in> K \<longleftrightarrow> n \<in> set (nodeIds g0) \<and> smallComponent now len g0 (component g0 n)" for n
    using smallComponent_shape [OF c0, of now len] shape0(2,6)
    by (simp add: K_def prunable_def len_def)
  have comp_of: "set (sgNodes sg) = component g0 n \<and> n \<in> set (nodeIds g0)"
    if sgm: "sg \<in> set subs" and nm: "n \<in> set (sgNodes sg)" for sg n
  proof -
    obtain s where s: "s \<in> set (nodeIds g0)" "set (sgNodes sg) = component g0 s"
      using comps sgm by (auto simp: isComponent_def)
    then have "n \<in> component g0 s" using nm by simp
    then show ?thesis
      using s component_eq [of n g0 s] component_nodes [OF wf0 s(1)] by auto
  qed
  have Kset: "set (concat (map sgNodes small)) = K"
  proof (intro set_eqI iffI)
    fix n assume "n \<in> set (concat (map sgNodes small))"
    then obtain sg where sg: "sg \<in> set subs" "isSmall now len sg" "n \<in> set (sgNodes sg)"
      by (auto simp: small_def)
    then show "n \<in> K"
      using comp_of [OF sg(1,3)] isSmall_component [of g0 sg now len] comps
      by (auto simp: pr)
  next
    fix n assume n: "n \<in> K"
    then obtain sg where sg: "sg \<in> set subs" "n \<in> set (sgNodes sg)"
      using cover' by (auto simp: pr)
    then have "isSmall now len sg"
      using comp_of [OF sg] isSmall_component [of g0 sg now len] comps n
      by (auto simp: pr)
    then show "n \<in> set (concat (map sgNodes small))"
      using sg by (auto simp: small_def)
  qed
  have rem: "(small \<noteq> []) = (K \<noteq> {})"
  proof
    assume "small \<noteq> []"
    then obtain sg where sg: "sg \<in> set small" by (cases small) auto
    then obtain s where "set (sgNodes sg) = component g0 s"
      using comps by (auto simp: small_def isComponent_def)
    then have "s \<in> set (sgNodes sg)" using component_refl by auto
    then show "K \<noteq> {}" using sg Kset by auto
  next
    assume "K \<noteq> {}"
    then show "small \<noteq> []" using Kset by auto
  qed
  define v1 where
    "v1 = v\<lparr>graph := g1, removeNodesQ := removeNodesQ v @ concat (map sgNodes small)\<rparr>"
  have pass: "smallNetworksPass now v
              = (if small \<noteq> [] then
                   (case removeNodes v1 of None \<Rightarrow> None | Some v2 \<Rightarrow> Some (True, v2))
                 else Some (False, v1))"
    using d by (simp add: smallNetworksPass_def g0_def [symmetric] Let_def small_def len_def v1_def)
  show ?thesis
  proof (cases "K = {}")
    case True
    then have s: "small = []" using rem by simp
    have "clearGraphIds (graph v1) = without (prunable now v) (clearGraphIds (graph v))"
      using c1 c0 True by (simp add: v1_def K_def [symmetric] without_empty)
    then show ?thesis
      using pass s True q by (simp add: K_def v1_def)
  next
    case False
    then have s: "small \<noteq> []" using rem by simp
    have wf1: "wellFormed (graph v1)" using wf0 shape1(4) by (simp add: v1_def)
    have cl: "closedSet (graph v1) K"
      using prunable_closed [OF wf, of now] closedSet_shape [OF c1] closedSet_shape [OF c0]
      by (simp add: v1_def K_def)
    have q1: "set (removeNodesQ v1) = K" using Kset q by (simp add: v1_def)
    have "[] \<notin> set (removeNodesQ v1)"
      using q1 ne0 by (auto simp: pr)
    then obtain ms' where
      r: "removeNodes v1
          = Some (v1\<lparr>graph := without K (graph v1), msIndexToNode := ms', removeNodesQ := []\<rparr>)"
      using removeNodes_closed [OF wf1 cl] q1 by auto
    have "clearGraphIds (without K (graph v1)) = without K (clearGraphIds (graph v))"
      using c1 c0 by (simp add: clearGraphIds_without v1_def)
    then show ?thesis
      using pass s r False by (simp add: K_def v1_def)
  qed
qed

subsection \<open>The loop\<close>

lemma shape_of_clear:
  assumes "clearGraphIds g' = without K (clearGraphIds g)"
  shows "nodeIds g' = filter (\<lambda>n. n \<notin> K) (nodeIds g)"
    and "links g' = filter (\<lambda>l. fst l \<notin> K \<and> snd l \<notin> K) (links g)"
    and "wellFormed g \<Longrightarrow> wellFormed g'"
    and "n \<notin> K \<Longrightarrow> map_option (\<lambda>d. d\<lparr>graphId := None\<rparr>) (getNode g' n)
                      = map_option (\<lambda>d. d\<lparr>graphId := None\<rparr>) (getNode g n)"
proof -
  show "nodeIds g' = filter (\<lambda>n. n \<notin> K) (nodeIds g)"
    using nodeIds_clearGraphIds [of g'] nodeIds_clearGraphIds [of g] assms
    by (simp add: nodeIds_without)
  show "links g' = filter (\<lambda>l. fst l \<notin> K \<and> snd l \<notin> K) (links g)"
    using links_clearGraphIds [of g'] links_clearGraphIds [of g] assms
    by (simp add: links_without)
  show "wellFormed g'" if "wellFormed g"
  proof -
    have "wellFormed (clearGraphIds g)"
      using that same_shape(4) [OF clearGraphIds_idem, of g] by simp
    then have "wellFormed (clearGraphIds g')"
      using assms wellFormed_without by simp
    then show ?thesis
      using same_shape(4) [OF clearGraphIds_idem, of g'] by simp
  qed
  show "map_option (\<lambda>d. d\<lparr>graphId := None\<rparr>) (getNode g' n)
        = map_option (\<lambda>d. d\<lparr>graphId := None\<rparr>) (getNode g n)" if "n \<notin> K"
    using getNode_clearGraphIds [of g' n] getNode_clearGraphIds [of g n] assms
      getNode_without [OF that, of "clearGraphIds g"]
    by simp
qed

lemma prunable_after_pass:
  assumes wf: "wellFormed (graph v)"
    and c: "clearGraphIds (graph v') = without (prunable now v) (clearGraphIds (graph v))"
    and e: "existingIdsV v' = existingIdsV v"
  shows "prunable now v' = {}"
proof (rule ccontr)
  define K where "K = prunable now v"
  define g0 where "g0 = clearGraphIds (graph v)"
  define len where "len = length (existingIdsV v)"
  have c0: "clearGraphIds g0 = clearGraphIds (graph v)"
    by (simp add: g0_def clearGraphIds_idem)
  have cw: "clearGraphIds (without K g0) = clearGraphIds (graph v')"
    using c by (simp add: clearGraphIds_without g0_def K_def clearGraphIds_idem)
  have cl: "closedSet g0 K"
    using prunable_closed [OF wf, of now] closedSet_shape [OF c0] by (simp add: K_def)
  assume "prunable now v' \<noteq> {}"
  then obtain n where n: "n \<in> set (nodeIds (graph v'))"
    and sm: "smallComponent now len (graph v') (component (graph v') n)"
    using e by (auto simp: prunable_def len_def)
  have nK: "n \<notin> K" and nn: "n \<in> set (nodeIds (graph v))"
    using n shape_of_clear(1) [OF c] by (auto simp: K_def)
  have comp: "component (graph v') n = component g0 n"
    using same_shape(6) [OF cw] component_without [OF cl nK] by simp
  have out: "component g0 n \<inter> K = {}"
    by (rule component_outside [OF cl nK])
  have "addedOf (without K g0) m = addedOf g0 m" if "m \<in> component g0 n" for m
  proof -
    have "m \<notin> K" using that out by auto
    then show ?thesis by (simp add: addedOf_def getNode_without)
  qed
  then have "mostRecent (without K g0) (component g0 n) = mostRecent g0 (component g0 n)"
    by (simp add: mostRecent_def cong: image_cong)
  then have "smallComponent now len g0 (component g0 n)"
    using sm smallComponent_shape [OF cw, of now len "component g0 n"]
    by (simp add: comp smallComponent_def)
  then have "smallComponent now len (graph v) (component (graph v) n)"
    using smallComponent_shape [OF c0, of now len] same_shape(6) [OF c0] by simp
  then have "n \<in> K" using nn by (simp add: K_def prunable_def len_def)
  then show False using nK by simp
qed

lemma removeSmallNetworks_result:
  assumes "wellFormed (graph v)" and "[] \<notin> set (nodeIds (graph v))" and "removeNodesQ v = []"
  shows "\<exists>v'. removeSmallNetworks now v = Some v'
          \<and> clearGraphIds (graph v') = without (prunable now v) (clearGraphIds (graph v))
          \<and> prunable now v' = {}
          \<and> (\<exists>v''. smallNetworksPass now v' = Some (False, v''))
          \<and> existingIdsV v' = existingIdsV v \<and> removeNodesQ v' = []
          \<and> protocol v' = protocol v \<and> newItems v' = newItems v
          \<and> smallNetworkInterval v' = smallNetworkInterval v"
proof -
  obtain v1 where
    p1: "smallNetworksPass now v = Some (prunable now v \<noteq> {}, v1)"
    and c1: "clearGraphIds (graph v1) = without (prunable now v) (clearGraphIds (graph v))"
    and e1: "existingIdsV v1 = existingIdsV v" and q1: "removeNodesQ v1 = []"
    and o1: "protocol v1 = protocol v" "newItems v1 = newItems v"
      "smallNetworkInterval v1 = smallNetworkInterval v"
    using pass_spec [OF assms, of now] by blast
  note s1 = shape_of_clear [OF c1]
  have wf1: "wellFormed (graph v1)" by (rule s1(3) [OF assms(1)])
  have ne1: "[] \<notin> set (nodeIds (graph v1))" using assms(2) by (simp add: s1(1))
  have pr1: "prunable now v1 = {}"
    by (rule prunable_after_pass [OF assms(1) c1 e1])
  obtain v2 where
    p2: "smallNetworksPass now v1 = Some (False, v2)"
    and c2: "clearGraphIds (graph v2) = clearGraphIds (graph v1)"
    and e2: "existingIdsV v2 = existingIdsV v1" and q2: "removeNodesQ v2 = []"
    and o2: "protocol v2 = protocol v1" "newItems v2 = newItems v1"
      "smallNetworkInterval v2 = smallNetworkInterval v1"
    using pass_spec [OF wf1 ne1 q1, of now] by (auto simp: pr1 without_empty)
  have pr2: "prunable now v2 = {}"
    using prunable_shape [OF c2 e2, of now] pr1 by simp
  have c2': "clearGraphIds (graph v2) = without (prunable now v) (clearGraphIds (graph v))"
    using c2 c1 by simp
  have wf2: "wellFormed (graph v2)" by (rule shape_of_clear(3) [OF c2' assms(1)])
  have ne2: "[] \<notin> set (nodeIds (graph v2))" using assms(2) by (simp add: shape_of_clear(1) [OF c2'])
  obtain v3 where p3: "smallNetworksPass now v2 = Some (False, v3)"
    using pass_spec [OF wf2 ne2 q2, of now] by (auto simp: pr2)
  show ?thesis
  proof (cases "prunable now v = {}")
    case True
    have "removeSmallNetworks now v = Some v1"
      using p1 True by (subst removeSmallNetworks.simps) simp
    then show ?thesis
      using c1 pr1 p2 e1 q1 o1 by auto
  next
    case False
    have "removeSmallNetworks now v = removeSmallNetworks now v1"
      using p1 False by (subst removeSmallNetworks.simps) simp
    also have "\<dots> = Some v2"
      using p2 by (subst removeSmallNetworks.simps) simp
    finally show ?thesis
      using c2' pr2 p3 e1 e2 q2 o1 o2 by auto
  qed
qed

lemma component_isolated:
  assumes "\<forall>l\<in>set (links g). \<not> touches n l"
  shows "component g n = {n}"
proof -
  have "(n, m) \<in> (adjacent g)\<^sup>* \<Longrightarrow> m = n" for m
    by (induction rule: rtrancl_induct) (use assms in \<open>auto simp: adjacent_def touches_def\<close>)
  then show ?thesis using component_refl [of n g] by (auto simp: component_def)
qed

lemma recent_not_small:
  assumes "wellFormed g" and "n \<in> set (nodeIds g)" and "int now - int (addedOf g n) \<le> 60000"
  shows "\<not> smallComponent now len g (component g n)"
proof -
  have "finite (component g n)"
    using component_nodes [OF assms(1,2)] by (rule finite_subset) simp
  then have "addedOf g n \<le> mostRecent g (component g n)"
    unfolding mostRecent_def using component_refl [of n g] by (intro Max_ge) auto
  then show ?thesis using assms(3) by (simp add: smallComponent_def)
qed

text \<open>
  Claim C3, as the code has it. On a graph as the library keeps it, with no empty id and
  an empty queue, \<^verbatim>\<open>removeSmallNetworks\<close> returns; a node stays in the graph if and only
  if its connected component is not small, and a component is small when it has fewer
  members than 3% of the length of \<^verbatim>\<open>_existingIds\<close> and its most recent member was added
  more than 60000 ms before the time the function read. The nodes that stay keep their
  places, their data (up to the transient graph id) and the links among them. The loop
  ends on a pass that finds no small component: in the graph it leaves no component is
  small, and one more pass removes nothing.
\<close>

theorem C3_small_components_are_removed:
  assumes "wellFormed (graph v)" and "[] \<notin> set (nodeIds (graph v))" and "removeNodesQ v = []"
  shows "\<exists>v'. removeSmallNetworks now v = Some v'
          \<and> (\<forall>n. n \<in> set (nodeIds (graph v')) \<longleftrightarrow>
                n \<in> set (nodeIds (graph v))
                \<and> \<not> smallComponent now (length (existingIdsV v)) (graph v) (component (graph v) n))
          \<and> nodeIds (graph v') = filter (\<lambda>n. n \<notin> prunable now v) (nodeIds (graph v))
          \<and> links (graph v')
              = filter (\<lambda>l. fst l \<notin> prunable now v \<and> snd l \<notin> prunable now v) (links (graph v))
          \<and> (\<forall>n. n \<notin> prunable now v \<longrightarrow>
                map_option (\<lambda>d. d\<lparr>graphId := None\<rparr>) (getNode (graph v') n)
                = map_option (\<lambda>d. d\<lparr>graphId := None\<rparr>) (getNode (graph v) n))
          \<and> prunable now v' = {}
          \<and> (\<exists>v''. smallNetworksPass now v' = Some (False, v''))"
proof -
  obtain v' where
    r: "removeSmallNetworks now v = Some v'"
    and c: "clearGraphIds (graph v') = without (prunable now v) (clearGraphIds (graph v))"
    and p: "prunable now v' = {}" "\<exists>v''. smallNetworksPass now v' = Some (False, v'')"
    using removeSmallNetworks_result [OF assms, of now] by blast
  note s = shape_of_clear [OF c]
  have "n \<in> set (nodeIds (graph v')) \<longleftrightarrow>
          n \<in> set (nodeIds (graph v))
          \<and> \<not> smallComponent now (length (existingIdsV v)) (graph v) (component (graph v) n)" for n
    by (auto simp: s(1) prunable_def)
  then show ?thesis
    using r s(1,2,4) p by auto
qed

theorem C3_small_components_witness:
  "map_option (\<lambda>v. (nodeIds (graph v), links (graph v))) (removeSmallNetworks 100000 staleAndFresh)
   = Some ([''A'', ''B''], [(''A'', ''B'')])"
proof -
  let ?g = "graph staleAndFresh"
  have wf: "wellFormed ?g"
    by (simp add: staleAndFresh_def wellFormed_def nodeIds_def)
  have ne: "[] \<notin> set (nodeIds ?g)"
    by (simp add: staleAndFresh_def nodeIds_def)
  have q: "removeNodesQ staleAndFresh = []"
    by (simp add: staleAndFresh_def)
  have ids: "nodeIds ?g = [''Z'', ''A'', ''B'']" and ls: "links ?g = [(''A'', ''B'')]"
    and len: "length (existingIdsV staleAndFresh) = 40"
    by (simp_all add: staleAndFresh_def nodeIds_def pastIds_def)
  have "component ?g ''Z'' = {''Z''}"
    by (rule component_isolated) (simp add: ls touches_def)
  then have z: "smallComponent 100000 40 ?g (component ?g ''Z'')"
    by (simp add: smallComponent_def mostRecent_def addedOf_def getNode_def staleAndFresh_def
        nodeAt_def)
  have ai: "''A'' \<in> set (nodeIds ?g)" "''B'' \<in> set (nodeIds ?g)"
    by (simp_all add: ids)
  have ad: "addedOf ?g ''A'' = 90000" "addedOf ?g ''B'' = 90000"
    by (simp_all add: addedOf_def getNode_def staleAndFresh_def nodeAt_def)
  have a: "\<not> smallComponent 100000 40 ?g (component ?g ''A'')"
    by (rule recent_not_small [OF wf ai(1)]) (simp add: ad)
  have b: "\<not> smallComponent 100000 40 ?g (component ?g ''B'')"
    by (rule recent_not_small [OF wf ai(2)]) (simp add: ad)
  have pr: "prunable 100000 staleAndFresh = {''Z''}"
    using z a b by (auto simp: prunable_def ids len)
  show ?thesis
    using C3_small_components_are_removed [OF wf ne q, of 100000]
    by (auto simp: pr ids ls)
qed

text \<open>
  The code departs from the claim where \<^verbatim>\<open>_existingIds\<close>, the list of the items being
  visualized, is longer than the graph has nodes: \<^verbatim>\<open>removeNodes\<close> takes no id out of it,
  so the ids of the nodes removed by the cascade or by an earlier pruning stay. Here the
  graph is the single node \<^verbatim>\<open>X\<close>, the whole graph and not a few nodes in comparison to
  it, and \<^verbatim>\<open>_existingIds\<close> holds 34 ids: the node is removed.
\<close>

theorem C3_denominator_counterexample:
  "map_option (\<lambda>v. nodeIds (graph v)) (removeSmallNetworks 100000 loneNode) = Some []
   \<and> nodeIds (graph loneNode) = [''X'']
   \<and> \<not> 100 * card (component (graph loneNode) ''X'') < 3 * length (nodeIds (graph loneNode))"
proof -
  let ?g = "graph loneNode"
  have wf: "wellFormed ?g"
    by (simp add: loneNode_def wellFormed_def nodeIds_def)
  have ne: "[] \<notin> set (nodeIds ?g)"
    by (simp add: loneNode_def nodeIds_def)
  have q: "removeNodesQ loneNode = []"
    by (simp add: loneNode_def)
  have ids: "nodeIds ?g = [''X'']" and len: "length (existingIdsV loneNode) = 34"
    by (simp_all add: loneNode_def nodeIds_def pastIds_def)
  have c: "component ?g ''X'' = {''X''}"
    by (rule component_isolated) (simp add: loneNode_def)
  then have "smallComponent 100000 34 ?g (component ?g ''X'')"
    by (simp add: smallComponent_def mostRecent_def addedOf_def getNode_def loneNode_def
        nodeAt_def)
  then have pr: "prunable 100000 loneNode = {''X''}"
    by (auto simp: prunable_def ids len)
  obtain v' where "removeSmallNetworks 100000 loneNode = Some v'"
    "clearGraphIds (graph v') = without (prunable 100000 loneNode) (clearGraphIds ?g)"
    using removeSmallNetworks_result [OF wf ne q, of 100000] by blast
  then have "map_option (\<lambda>v. nodeIds (graph v)) (removeSmallNetworks 100000 loneNode) = Some []"
    using shape_of_clear(1) [of "graph v'" "prunable 100000 loneNode" ?g]
    by (simp add: pr ids)
  then show ?thesis by (simp add: c ids)
qed

section \<open>Properties of the cap\<close>

lemma evict_spec:
  "evict addedIds ids q =
     (drop (length ids - MAX_ITEMS) ids,
      q @ filter (\<lambda>n. n \<noteq> [] \<and> n \<notin> set addedIds) (take (length ids - MAX_ITEMS) ids))"
proof (induction ids arbitrary: q)
  case Nil
  then show ?case by simp
next
  case (Cons n ids)
  show ?case
  proof (cases "length (n # ids) > MAX_ITEMS")
    case True
    then have "length (n # ids) - MAX_ITEMS = Suc (length ids - MAX_ITEMS)" by simp
    then show ?thesis using True Cons.IH by simp
  next
    case False
    then show ?thesis by simp
  qed
qed

subsection \<open>What a batch adds\<close>

lemma linkParent_batchInv:
  assumes "batchInv g0 s" and "p \<noteq> []" and "c \<in> set (nodeIds (fst s))"
  shows "batchInv g0 (linkParent now p c s)"
    and "length (snd (linkParent now p c s)) \<le> Suc (length (snd s))"
    and "set (nodeIds (fst s)) \<subseteq> set (nodeIds (fst (linkParent now p c s)))"
proof -
  obtain g a where s: "s = (g, a)" by (cases s)
  have inv: "wellFormed g" "nodeIds g = nodeIds g0 @ a" "[] \<notin> set (nodeIds g)"
    using assms(1) by (auto simp: batchInv_def s)
  show "batchInv g0 (linkParent now p c s)"
  proof (cases "getNode g p")
    case None
    then have pn: "p \<notin> set (nodeIds g)" using getNode_nodeIds [of g p] by simp
    then show ?thesis
      using inv assms(2,3) None
      by (auto simp: batchInv_def s linkParent_def wellFormed_def nodeIds_addNode nodeIds_addLink
          links_addLink links_addNode)
  next
    case (Some d)
    then have pn: "p \<in> set (nodeIds g)" using getNode_nodeIds [of g p] by simp
    then show ?thesis
      using inv assms(2,3) Some
      by (auto simp: batchInv_def s linkParent_def wellFormed_def nodeIds_addLink links_addLink)
  qed
  show "length (snd (linkParent now p c s)) \<le> Suc (length (snd s))"
    by (simp add: s linkParent_def)
  show "set (nodeIds (fst s)) \<subseteq> set (nodeIds (fst (linkParent now p c s)))"
    by (auto simp: s linkParent_def nodeIds_addNode nodeIds_addLink)
qed

lemma drawItem_batchInv:
  assumes "batchInv g0 s" and "idOf item \<noteq> []"
  shows "batchInv g0 (drawItem now item s)
         \<and> length (snd (drawItem now item s)) \<le> length (snd s) + 3"
proof -
  obtain g a where s: "s = (g, a)" by (cases s)
  have inv: "wellFormed g" "nodeIds g = nodeIds g0 @ a" "[] \<notin> set (nodeIds g)"
    using assms(1) by (auto simp: batchInv_def s)
  show ?thesis
  proof (cases "getNode g (idOf item)")
    case (Some d)
    then show ?thesis
      using assms(1) by (simp add: s drawItem_def)
  next
    case None
    then have nn: "idOf item \<notin> set (nodeIds g)" using getNode_nodeIds [of g "idOf item"] by simp
    define s1 where "s1 = (addNode (idOf item) \<lparr>feedItem = item, added = now, graphId = None\<rparr> g,
                           a @ [idOf item])"
    define s2 where "s2 = (if parent1 item \<noteq> [] then linkParent now (parent1 item) (idOf item) s1
                           else s1)"
    define s3 where "s3 = (if parent2 item \<noteq> [] \<and> parent1 item \<noteq> parent2 item
                           then linkParent now (parent2 item) (idOf item) s2 else s2)"
    have r: "drawItem now item s = s3"
      using None by (simp add: s drawItem_def s1_def s2_def s3_def Let_def)
    have i1: "batchInv g0 s1" and c1: "idOf item \<in> set (nodeIds (fst s1))"
      and l1: "length (snd s1) = Suc (length a)"
      using inv nn assms(2)
      by (auto simp: batchInv_def s1_def wellFormed_def nodeIds_addNode links_addNode)
    have i2: "batchInv g0 s2" and c2: "idOf item \<in> set (nodeIds (fst s2))"
      and l2: "length (snd s2) \<le> Suc (length (snd s1))"
      using linkParent_batchInv [OF i1 _ c1, of "parent1 item" now] i1 c1
      by (auto simp: s2_def)
    have i3: "batchInv g0 s3" and l3: "length (snd s3) \<le> Suc (length (snd s2))"
      using linkParent_batchInv [OF i2 _ c2, of "parent2 item" now] i2
      by (auto simp: s3_def)
    show ?thesis
      using i3 l1 l2 l3 r by (simp add: s)
  qed
qed

lemma drawItems_batchInv:
  assumes "wellFormed g" and "[] \<notin> set (nodeIds g)" and "\<forall>it\<in>set its. idOf it \<noteq> []"
  shows "batchInv g (drawItems now its g)"
    and "length (snd (drawItems now its g)) \<le> 3 * length its"
proof -
  have "batchInv g (fold (drawItem now) its s)
        \<and> length (snd (fold (drawItem now) its s)) \<le> length (snd s) + 3 * length its"
    if "batchInv g s" for s
    using that assms(3)
  proof (induction its arbitrary: s)
    case Nil
    then show ?case by simp
  next
    case (Cons it its)
    have "batchInv g (drawItem now it s)"
      and "length (snd (drawItem now it s)) \<le> length (snd s) + 3"
      using drawItem_batchInv [OF Cons.prems(1), of it now] Cons.prems(2) by auto
    then show ?case using Cons.IH [of "drawItem now it s"] Cons.prems(2) by fastforce
  qed
  moreover have "batchInv g (g, [])"
    using assms(1,2) by (simp add: batchInv_def)
  ultimately show "batchInv g (drawItems now its g)"
    and "length (snd (drawItems now its g)) \<le> 3 * length its"
    unfolding drawItems_def by fastforce+
qed


subsection \<open>The queue is drained\<close>

lemma closedSet_UNIV: "closedSet g UNIV"
  by (simp add: closedSet_def)

lemma removeNodes_drains:
  assumes "wellFormed (graph v)" and "[] \<notin> set (removeNodesQ v)"
  shows "\<exists>g' ms'. removeNodes v = Some (v\<lparr>graph := g', msIndexToNode := ms', removeNodesQ := []\<rparr>)
           \<and> wellFormed g'
           \<and> set (nodeIds g') \<subseteq> set (nodeIds (graph v)) - set (removeNodesQ v)"
proof -
  obtain g' ms' where
    r: "removeNodesLoop (removeNodesQ v) (graph v, msIndexToNode v) = Some (g', ms')"
    and wf': "wellFormed g'"
    and n: "set (nodeIds g') \<subseteq> set (nodeIds (graph v)) - set (removeNodesQ v)"
    using removeNodesLoop_spec [OF assms(1) closedSet_UNIV _ assms(2), of "msIndexToNode v"]
    by auto
  have "removeNodes v = Some (v\<lparr>graph := g', msIndexToNode := ms', removeNodesQ := []\<rparr>)"
    by (simp add: removeNodes_def r)
  then show ?thesis using wf' n by blast
qed

subsection \<open>The invariant\<close>

lemma capInvariant_bound:
  assumes "capInvariant v"
  shows "length (nodeIds (graph v)) \<le> MAX_ITEMS"
proof -
  have d: "distinct (nodeIds (graph v))" using assms by (simp add: capInvariant_def wellFormed_def)
  have "length (nodeIds (graph v)) = card (set (nodeIds (graph v)))"
    using d by (simp add: distinct_card)
  also have "\<dots> \<le> card (set (existingIdsV v))"
    using assms by (intro card_mono) (auto simp: capInvariant_def)
  also have "\<dots> \<le> length (existingIdsV v)" by (rule card_length)
  finally show ?thesis using assms by (simp add: capInvariant_def)
qed

lemma capInvariant_new: "capInvariant (newVisualizer p)"
  by (simp add: capInvariant_def newVisualizer_def emptyGraph_def wellFormed_def nodeIds_def)

lemma drawBatch_cap:
  assumes inv: "capInvariant v" and fit: "length (batchAdded now v) \<le> MAX_ITEMS"
  shows "\<exists>v1. drawBatch now v = Some v1 \<and> capInvariant v1
           \<and> smallNetworkInterval v1 = smallNetworkInterval v"
proof -
  define c where "c = (length (newItems v) + 49) div 50"
  define its where "its = take c (newItems v)"
  obtain g a where d: "drawItems now its (graph v) = (g, a)" by (cases "drawItems now its (graph v)")
  define E where "E = existingIdsV v @ a"
  define k where "k = length E - MAX_ITEMS"
  define q where "q = filter (\<lambda>n. n \<noteq> [] \<and> n \<notin> set a) (take k E)"
  have ne: "\<forall>it\<in>set its. idOf it \<noteq> []"
    using inv by (auto simp: capInvariant_def its_def dest: in_set_takeD)
  have bi: "batchInv (graph v) (g, a)"
    using drawItems_batchInv(1) [OF _ _ ne, of "graph v" now] inv d
    by (simp add: capInvariant_def)
  then have wf: "wellFormed g" and ng: "nodeIds g = nodeIds (graph v) @ a"
    and e: "[] \<notin> set (nodeIds g)"
    by (auto simp: batchInv_def)
  have la: "length a \<le> MAX_ITEMS"
    using fit d by (simp add: batchAdded_def its_def c_def)
  have ev: "evict a E (removeNodesQ v) = (drop k E, q)"
    using inv by (simp add: evict_spec k_def q_def capInvariant_def)
  define v0 where "v0 = v\<lparr>graph := g, newItems := drop c (newItems v),
                          existingIdsV := drop k E, removeNodesQ := q\<rparr>"
  have db: "drawBatch now v = removeNodes v0"
    using d ev by (simp add: drawBatch_def Let_def c_def [symmetric] its_def [symmetric]
        E_def [symmetric] v0_def)
  have "wellFormed (graph v0)" "[] \<notin> set (removeNodesQ v0)"
    using wf by (auto simp: v0_def q_def)
  from removeNodes_drains [OF this] obtain g' ms' where
    r: "removeNodes v0 = Some (v0\<lparr>graph := g', msIndexToNode := ms', removeNodesQ := []\<rparr>)"
    and wf': "wellFormed g'"
    and n: "set (nodeIds g') \<subseteq> set (nodeIds g) - set q"
    by (auto simp: v0_def)
  define v1 where "v1 = v0\<lparr>graph := g', msIndexToNode := ms', removeNodesQ := []\<rparr>"
  have kl: "k \<le> length (existingIdsV v)"
    using la by (simp add: k_def E_def)
  then have dr: "drop k E = drop k (existingIdsV v) @ a" by (simp add: E_def)
  have sub: "set (nodeIds g') \<subseteq> set (drop k E)"
  proof
    fix x assume x: "x \<in> set (nodeIds g')"
    then have xg: "x \<in> set (nodeIds g)" and xq: "x \<notin> set q" using n by auto
    have x0: "x \<noteq> []" using xg e by auto
    show "x \<in> set (drop k E)"
    proof (cases "x \<in> set a")
      case True
      then show ?thesis by (simp add: dr)
    next
      case False
      have "x \<in> set E" using xg ng inv by (auto simp: E_def capInvariant_def)
      then have "x \<in> set (take k E) \<or> x \<in> set (drop k E)"
        using set_append [of "take k E" "drop k E"] by (simp del: set_append)
      moreover have "x \<notin> set (take k E)" using xq False x0 by (simp add: q_def)
      ultimately show ?thesis by simp
    qed
  qed
  have "capInvariant v1"
    using wf' n e sub inv
    by (auto simp: capInvariant_def v1_def v0_def k_def dest: in_set_dropD)
  moreover have "smallNetworkInterval v1 = smallNetworkInterval v" by (simp add: v1_def v0_def)
  moreover have "drawBatch now v = Some v1" using db r by (simp add: v1_def)
  ultimately show ?thesis by blast
qed

lemma drawUpdates_cap:
  assumes inv: "capInvariant v" and fit: "length (batchAdded now v) \<le> MAX_ITEMS"
  shows "\<exists>v'. drawUpdates now now2 v = Some v' \<and> capInvariant v'"
proof (cases "length (newItems v) > 0")
  case False
  then show ?thesis using inv by (simp add: drawUpdates_def)
next
  case True
  obtain v1 where d: "drawBatch now v = Some v1" and i1: "capInvariant v1"
    using drawBatch_cap [OF inv fit] by blast
  define v2 where "v2 = v1\<lparr>smallNetworkInterval := Suc (smallNetworkInterval v1)\<rparr>"
  have i2: "capInvariant v2" using i1 by (simp add: capInvariant_def v2_def)
  show ?thesis
  proof (cases "smallNetworkInterval v1 mod 100 = 0")
    case False
    then show ?thesis using True d i2 by (simp add: drawUpdates_def v2_def)
  next
    case z: True
    have "wellFormed (graph v2)" "[] \<notin> set (nodeIds (graph v2))" "removeNodesQ v2 = []"
      using i2 by (simp_all add: capInvariant_def)
    from removeSmallNetworks_result [OF this, of now2] obtain v' where
      r: "removeSmallNetworks now2 v2 = Some v'"
      and c: "clearGraphIds (graph v') = without (prunable now2 v2) (clearGraphIds (graph v2))"
      and o: "existingIdsV v' = existingIdsV v2" "removeNodesQ v' = []" "newItems v' = newItems v2"
      by blast
    note s = shape_of_clear [OF c]
    have "capInvariant v'"
      using i2 s(3) o by (auto simp: capInvariant_def s(1))
    moreover have "drawUpdates now now2 v = Some v'"
      using True d z r by (simp add: drawUpdates_def v2_def)
    ultimately show ?thesis by blast
  qed
qed


subsection \<open>The calls that draw nothing\<close>

lemma highlightLoop_shape:
  "highlightLoop now keys (g, ms, r) = (g', ms', r') \<Longrightarrow>
     nodeIds g' = nodeIds g \<and> links g' = links g"
proof (induction keys arbitrary: g ms r)
  case Nil
  then show ?case by simp
next
  case (Cons j keys)
  show ?case
  proof (cases "map_of ms j")
    case None
    then show ?thesis using Cons by simp
  next
    case (Some e)
    show ?thesis
    proof (cases "getNode g (msNodeId e)")
      case None
      then show ?thesis using Cons Some by (simp split: if_splits)
    next
      case (Some d)
      then have "msNodeId e \<in> set (nodeIds g)"
        using getNode_nodeIds [of g "msNodeId e"] by simp
      then have "nodeIds (addNode (msNodeId e) (setMS j d) g) = nodeIds g"
        by (simp add: nodeIds_addNode)
      then show ?thesis
        using Cons.IH [of "addNode (msNodeId e) (setMS j d) g"] Cons.prems \<open>map_of ms j = Some e\<close> Some
        by (simp add: links_addNode)
    qed
  qed
qed

lemma highlightMilestones_shape:
  "nodeIds (graph (highlightMilestones now v)) = nodeIds (graph v)"
  "links (graph (highlightMilestones now v)) = links (graph v)"
  "existingIdsV (highlightMilestones now v) = existingIdsV v"
  "removeNodesQ (highlightMilestones now v) = removeNodesQ v"
  "newItems (highlightMilestones now v) = newItems v"
proof -
  obtain g' ms' r' where
    h: "highlightLoop now (sort (map fst (msIndexToNode v))) (graph v, msIndexToNode v, [])
        = (g', ms', r')"
    by (metis prod_cases3)
  note highlightLoop_shape [OF h]
  then show "nodeIds (graph (highlightMilestones now v)) = nodeIds (graph v)"
    "links (graph (highlightMilestones now v)) = links (graph v)"
    "existingIdsV (highlightMilestones now v) = existingIdsV v"
    "removeNodesQ (highlightMilestones now v) = removeNodesQ v"
    "newItems (highlightMilestones now v) = newItems v"
    by (simp_all add: highlightMilestones_def h)
qed

lemma capInvariant_shape:
  assumes "nodeIds (graph v') = nodeIds (graph v)" and "links (graph v') = links (graph v)"
    and "existingIdsV v' = existingIdsV v" and "removeNodesQ v' = removeNodesQ v"
    and "newItems v' = newItems v"
  shows "capInvariant v' = capInvariant v"
  using assms by (simp add: capInvariant_def wellFormed_def)

lemma setConfirmed_shape:
  "nodeIds (setConfirmed sn g) = nodeIds g" "links (setConfirmed sn g) = links g"
proof -
  show "nodeIds (setConfirmed sn g) = nodeIds g"
  proof (cases "getNode g sn")
    case None
    then show ?thesis by (simp add: setConfirmed_def)
  next
    case (Some d)
    then have "sn \<in> set (nodeIds g)" using getNode_nodeIds [of g sn] by simp
    then show ?thesis using Some by (simp add: setConfirmed_def nodeIds_addNode)
  qed
  show "links (setConfirmed sn g) = links g"
    by (simp add: setConfirmed_def links_addNode split: option.splits)
qed

lemma fold_setConfirmed_shape:
  "nodeIds (fold setConfirmed cs g) = nodeIds g \<and> links (fold setConfirmed cs g) = links g"
  by (induction cs arbitrary: g) (simp_all add: setConfirmed_shape)

lemma confirmedUpdated_cap: "capInvariant (confirmedUpdated cs v) = capInvariant v"
  by (rule capInvariant_shape) (simp_all add: confirmedUpdated_def fold_setConfirmed_shape)

lemma milestonesUpdated_cap: "capInvariant (milestonesUpdated ms now now2 v) = capInvariant v"
proof (cases "protocol v = Og")
  case False
  then show ?thesis by (simp add: milestonesUpdated_def)
next
  case True
  show ?thesis
    by (rule capInvariant_shape)
      (simp_all add: milestonesUpdated_def True highlightMilestones_shape)
qed

lemma itemsUpdated_cap:
  assumes "capInvariant v" and "\<forall>item\<in>set its. idOf item \<noteq> []"
  shows "capInvariant (itemsUpdated its now now2 v)"
proof -
  define v1 where "v1 = v\<lparr>newItems := newItems v @ its\<rparr>"
  have i1: "capInvariant v1" using assms by (auto simp: capInvariant_def v1_def)
  define v2 where
    "v2 = v1\<lparr>msIndexToNode := fold (recordMilestone now) (newItems v1) (msIndexToNode v1)\<rparr>"
  have i2: "capInvariant v2" using i1 by (simp add: capInvariant_def v2_def)
  have i3: "capInvariant (highlightMilestones now2 v2)"
    using i2 capInvariant_shape [of "highlightMilestones now2 v2" v2]
    by (simp add: highlightMilestones_shape)
  show ?thesis
    using i1 i2 i3 unfolding itemsUpdated_def Let_def v1_def [symmetric] v2_def [symmetric]
    by (simp add: v1_def)
qed

lemma stepV_cap:
  assumes "capInvariant v" and "fits ev v"
  shows "\<exists>v'. stepV ev v = Some v' \<and> capInvariant v'"
proof (cases ev)
  case (ItemsUpdated its now now2)
  then show ?thesis using itemsUpdated_cap [OF assms(1), of its now now2] assms(2) by simp
next
  case (MilestonesUpdated ms now now2)
  then show ?thesis using assms(1) by (simp add: milestonesUpdated_cap)
next
  case (ConfirmedUpdated cs)
  then show ?thesis using assms(1) by (simp add: confirmedUpdated_cap)
next
  case (DrawUpdates now now2)
  then show ?thesis using drawUpdates_cap [OF assms(1), of now now2] assms(2) by simp
qed

lemma runV_cap:
  assumes "capInvariant v" and "admissible evs v"
  shows "\<exists>v'. runV evs v = Some v' \<and> capInvariant v'"
  using assms
proof (induction evs arbitrary: v)
  case Nil
  then show ?case by simp
next
  case (Cons ev evs)
  obtain v1 where s: "stepV ev v = Some v1" and i1: "capInvariant v1"
    using stepV_cap [OF Cons.prems(1), of ev] Cons.prems(2) by auto
  have "admissible evs v1" using Cons.prems(2) s by simp
  from Cons.IH [OF i1 this] show ?case using s by simp
qed

text \<open>
  C2, as the code has it. Whatever the calls made on a new visualizer, as long as every
  item has an id that is not empty and no batch adds more than \<^verbatim>\<open>MAX_ITEMS\<close> ids: the
  calls return, the graph then has at most \<^verbatim>\<open>MAX_ITEMS\<close> nodes, all of them listed in
  \<^verbatim>\<open>_existingIds\<close>, which holds at most \<^verbatim>\<open>MAX_ITEMS\<close> ids, and a further batch that fits
  leaves at most \<^verbatim>\<open>MAX_ITEMS\<close> nodes once the sweep and the draining are done. The sweep
  itself, for every input: it drops the oldest ids of \<^verbatim>\<open>_existingIds\<close> down to \<^verbatim>\<open>MAX_ITEMS\<close>
  and queues for removal those of them that are not empty and not in the batch's \<^verbatim>\<open>added\<close>
  list, in their order.
\<close>

theorem C2_node_cap_for_batches_that_fit:
  "(admissible evs (newVisualizer p) \<longrightarrow>
      (\<exists>v. runV evs (newVisualizer p) = Some v
         \<and> length (nodeIds (graph v)) \<le> MAX_ITEMS
         \<and> set (nodeIds (graph v)) \<subseteq> set (existingIdsV v)
         \<and> length (existingIdsV v) \<le> MAX_ITEMS
         \<and> (\<forall>now. length (batchAdded now v) \<le> MAX_ITEMS \<longrightarrow>
               (\<exists>v1. drawBatch now v = Some v1
                  \<and> length (nodeIds (graph v1)) \<le> MAX_ITEMS))))
   \<and> evict addedIds ids q =
       (drop (length ids - MAX_ITEMS) ids,
        q @ filter (\<lambda>n. n \<noteq> [] \<and> n \<notin> set addedIds) (take (length ids - MAX_ITEMS) ids))"
proof (intro conjI impI)
  assume "admissible evs (newVisualizer p)"
  from runV_cap [OF capInvariant_new this] obtain v where
    r: "runV evs (newVisualizer p) = Some v" and i: "capInvariant v" by blast
  have "\<exists>v1. drawBatch now v = Some v1 \<and> length (nodeIds (graph v1)) \<le> MAX_ITEMS"
    if "length (batchAdded now v) \<le> MAX_ITEMS" for now
    using drawBatch_cap [OF i that] capInvariant_bound by blast
  then show "\<exists>v. runV evs (newVisualizer p) = Some v
         \<and> length (nodeIds (graph v)) \<le> MAX_ITEMS
         \<and> set (nodeIds (graph v)) \<subseteq> set (existingIdsV v)
         \<and> length (existingIdsV v) \<le> MAX_ITEMS
         \<and> (\<forall>now. length (batchAdded now v) \<le> MAX_ITEMS \<longrightarrow>
               (\<exists>v1. drawBatch now v = Some v1
                  \<and> length (nodeIds (graph v1)) \<le> MAX_ITEMS))"
    using r i capInvariant_bound [OF i] by (auto simp: capInvariant_def)
next
  show "evict addedIds ids q =
       (drop (length ids - MAX_ITEMS) ids,
        q @ filter (\<lambda>n. n \<noteq> [] \<and> n \<notin> set addedIds) (take (length ids - MAX_ITEMS) ids))"
    by (rule evict_spec)
qed


subsection \<open>A batch that adds more than the cap\<close>

lemma fold_drawItem_parentless:
  assumes "\<forall>it\<in>set its. parent1 it = [] \<and> parent2 it = []" and "distinct (map idOf its)"
    and "set (map idOf its) \<inter> set (nodeIds g) = {}"
  shows "\<exists>g'. fold (drawItem now) its (g, a) = (g', a @ map idOf its)
           \<and> nodeIds g' = nodeIds g @ map idOf its"
  using assms
proof (induction its arbitrary: g a)
  case Nil
  then show ?case by simp
next
  case (Cons it its)
  define g1 where "g1 = addNode (idOf it) \<lparr>feedItem = it, added = now, graphId = None\<rparr> g"
  have nn: "idOf it \<notin> set (nodeIds g)" using Cons.prems(3) by simp
  then have "getNode g (idOf it) = None" using getNode_nodeIds [of g "idOf it"] by simp
  then have d: "drawItem now it (g, a) = (g1, a @ [idOf it])"
    using Cons.prems(1) by (simp add: drawItem_def g1_def)
  have n1: "nodeIds g1 = nodeIds g @ [idOf it]" using nn by (simp add: g1_def nodeIds_addNode)
  have "set (map idOf its) \<inter> set (nodeIds g1) = {}"
    using Cons.prems(2,3) by (auto simp: n1)
  from Cons.IH [OF _ _ this, of "a @ [idOf it]"] Cons.prems(1,2)
  show ?case by (simp add: d n1)
qed

lemma idOf_floodItems: "map idOf (floodItems n) = pastIds n"
  by (simp add: floodItems_def pastIds_def txItem_def comp_def)

lemma distinct_pastIds: "distinct (pastIds n)"
proof -
  have "inj_on (\<lambda>k. replicate (Suc k) CHR ''a'') A" for A :: "nat set"
    by (rule inj_onI) (metis length_replicate nat.inject)
  then show ?thesis by (simp add: pastIds_def distinct_map)
qed

lemma drawBatch_flood:
  assumes c: "c = (n + 49) div 50" and cn: "c \<le> n"
  shows "map_option (\<lambda>v. (length (nodeIds (graph v)), length (existingIdsV v), removeNodesQ v))
           (drawBatch now (flood n)) = Some (c, min c MAX_ITEMS, [])"
proof -
  have t: "take c (floodItems n) = floodItems c"
    using cn by (simp add: floodItems_def take_map)
  have pl: "\<forall>it\<in>set (floodItems c). parent1 it = [] \<and> parent2 it = []"
    by (simp add: floodItems_def txItem_def)
  obtain g where
    d: "drawItems now (floodItems c) emptyGraph = (g, pastIds c)"
    and n: "nodeIds g = pastIds c"
    using fold_drawItem_parentless [OF pl, of emptyGraph now "[]"] distinct_pastIds [of c]
    by (auto simp: drawItems_def idOf_floodItems emptyGraph_def nodeIds_def)
  have "filter (\<lambda>x. x \<noteq> [] \<and> x \<notin> set (pastIds c)) (take (c - MAX_ITEMS) (pastIds c)) = []"
    by (auto simp: filter_empty_conv dest: in_set_takeD)
  then have e: "evict (pastIds c) (pastIds c) [] = (drop (c - MAX_ITEMS) (pastIds c), [])"
    by (simp add: evict_spec pastIds_def)
  have l: "length (pastIds c) = c" by (simp add: pastIds_def)
  have lf: "length (floodItems n) = n" by (simp add: floodItems_def)
  show ?thesis
    using d e n l
    by (simp add: drawBatch_def flood_def newVisualizer_def lf c [symmetric] t removeNodes_def
        Let_def)
qed

text \<open>
  The claim as stated fails where one batch adds more ids than the cap. With 250001
  parentless items pending on a new visualizer, the batch is 5001 items, all new. The
  sweep drops the oldest id, which is one of the batch's own and so is not queued: 5001
  nodes are left for 5000 ids listed.
\<close>

theorem C2_cap_exceeded_counterexample:
  "map_option (\<lambda>v. (length (nodeIds (graph v)), length (existingIdsV v), removeNodesQ v))
     (Option.bind (runV [ItemsUpdated (floodItems 250001) 0 0] (newVisualizer Og)) (drawBatch 10))
   = Some (5001, 5000, [])
   \<and> \<not> 5001 \<le> MAX_ITEMS"
proof -
  have "runV [ItemsUpdated (floodItems 250001) 0 0] (newVisualizer Og) = Some (flood 250001)"
    by (simp add: itemsUpdated_def flood_def newVisualizer_def)
  then show ?thesis
    using drawBatch_flood [of 5001 250001 10] by (simp add: MAX_ITEMS_def)
qed

subsection \<open>Batches of items without parents\<close>

lemma fold_drawItem_parentless_links:
  "\<forall>it\<in>set its. parent1 it = [] \<and> parent2 it = [] \<Longrightarrow>
     links (fst (fold (drawItem now) its s)) = links (fst s)"
proof (induction its arbitrary: s)
  case Nil
  then show ?case by simp
next
  case (Cons it its)
  have "links (fst (drawItem now it s)) = links (fst s)"
    using Cons.prems
    by (cases s) (simp add: drawItem_def Let_def links_addNode split: option.splits)
  then show ?case using Cons.IH [of "drawItem now it s"] Cons.prems by simp
qed

lemma filter_notin_take:
  assumes "distinct xs"
  shows "filter (\<lambda>x. x \<notin> set (take k xs)) xs = drop k xs"
proof -
  have dj: "set (take k xs) \<inter> set (drop k xs) = {}"
    using assms by (metis append_take_drop_id distinct_append)
  have "filter (\<lambda>x. x \<notin> set (take k xs)) xs
        = filter (\<lambda>x. x \<notin> set (take k xs)) (take k xs)
          @ filter (\<lambda>x. x \<notin> set (take k xs)) (drop k xs)"
    by (metis append_take_drop_id filter_append)
  moreover have "filter (\<lambda>x. x \<notin> set (take k xs)) (take k xs) = []"
    by (simp add: filter_empty_conv)
  moreover have "filter (\<lambda>x. x \<notin> set (take k xs)) (drop k xs) = drop k xs"
    unfolding filter_id_conv using dj by blast
  ultimately show ?thesis by (simp only: append_Nil)
qed

lemma closedSet_linkless: "links g = [] \<Longrightarrow> closedSet g K"
  by (simp add: closedSet_def adjacent_def)

lemma drawBatch_linkless:
  assumes wf: "wellFormed (graph v)" and nl: "links (graph v) = []"
    and ex: "existingIdsV v = nodeIds (graph v)" and q0: "removeNodesQ v = []"
    and ne: "[] \<notin> set (nodeIds (graph v))"
    and its: "its = take ((length (newItems v) + 49) div 50) (newItems v)"
    and pl: "\<forall>it\<in>set its. parent1 it = [] \<and> parent2 it = []"
    and di: "distinct (map idOf its)"
    and dj: "set (map idOf its) \<inter> set (nodeIds (graph v)) = {}"
    and le: "length its \<le> MAX_ITEMS"
    and k: "k = length (nodeIds (graph v)) + length its - MAX_ITEMS"
  shows "batchAdded now v = map idOf its
     \<and> (\<exists>v1. drawBatch now v = Some v1
           \<and> nodeIds (graph v1) = drop k (nodeIds (graph v) @ map idOf its)
           \<and> links (graph v1) = [] \<and> wellFormed (graph v1)
           \<and> existingIdsV v1 = nodeIds (graph v1) \<and> removeNodesQ v1 = []
           \<and> newItems v1 = drop ((length (newItems v) + 49) div 50) (newItems v)
           \<and> smallNetworkInterval v1 = smallNetworkInterval v)"
proof -
  define P where "P = nodeIds (graph v)"
  define A where "A = map idOf its"
  define c where "c = (length (newItems v) + 49) div 50"
  obtain g where
    d: "drawItems now its (graph v) = (g, A)" and ng: "nodeIds g = P @ A"
    using fold_drawItem_parentless [OF pl di dj, of now "[]"]
    by (auto simp: drawItems_def A_def P_def)
  have lg: "links g = []"
    using fold_drawItem_parentless_links [OF pl, of now "(graph v, [])"] d nl
    by (simp add: drawItems_def)
  have dP: "distinct P" using wf by (simp add: wellFormed_def P_def)
  have dPA: "distinct (P @ A)" using dP di dj by (auto simp: A_def P_def)
  have wg: "wellFormed g" using dPA by (simp add: wellFormed_def ng lg)
  have ba: "batchAdded now v = map idOf its"
    using d by (simp add: batchAdded_def its [symmetric] A_def)
  have kP: "k \<le> length P" using le by (simp add: k P_def)
  have kk: "length (P @ A) - MAX_ITEMS = k" by (simp add: k P_def A_def)
  have tk: "take k (P @ A) = take k P" using kP by simp
  have f: "filter (\<lambda>n. n \<noteq> [] \<and> n \<notin> set A) (take k P) = take k P"
    using ne dj by (auto simp: filter_id_conv P_def A_def dest: in_set_takeD)
  have "evict A (P @ A) [] =
          (drop k (P @ A), [] @ filter (\<lambda>n. n \<noteq> [] \<and> n \<notin> set A) (take k (P @ A)))"
    using evict_spec [of A "P @ A" "[]"] unfolding kk .
  then have "evict A (P @ A) [] = (drop k (P @ A), take k P)"
    unfolding tk f by (simp only: append_Nil)
  then have ev: "evict A (existingIdsV v @ A) (removeNodesQ v) = (drop k (P @ A), take k P)"
    by (simp only: ex q0 P_def)
  define v0 where "v0 = v\<lparr>graph := g, newItems := drop c (newItems v),
                          existingIdsV := drop k (P @ A), removeNodesQ := take k P\<rparr>"
  have d': "drawItems now (take c (newItems v)) (graph v) = (g, A)"
    using d by (simp add: its c_def)
  have db: "drawBatch now v = removeNodes v0"
    unfolding drawBatch_def Let_def c_def [symmetric] d' prod.case ev v0_def ..
  have "\<exists>ms'. removeNodes v0
          = Some (v0\<lparr>graph := without (set (take k P)) (graph v0), msIndexToNode := ms',
                     removeNodesQ := []\<rparr>)"
  proof (rule removeNodes_closed)
    show "wellFormed (graph v0)" using wg by (simp add: v0_def)
    show "closedSet (graph v0) (set (take k P))"
      by (rule closedSet_linkless) (simp add: v0_def lg)
    show "set (removeNodesQ v0) \<subseteq> set (take k P)" by (simp add: v0_def)
    show "set (take k P) \<inter> set (nodeIds (graph v0)) \<subseteq> set (removeNodesQ v0)"
      by (simp add: v0_def)
    show "[] \<notin> set (removeNodesQ v0)"
      using ne by (auto simp: v0_def P_def dest: in_set_takeD)
  qed
  then obtain ms' where
    r: "removeNodes v0
          = Some (v0\<lparr>graph := without (set (take k P)) g, msIndexToNode := ms',
                     removeNodesQ := []\<rparr>)"
    by (auto simp: v0_def)
  define v1 where "v1 = v0\<lparr>graph := without (set (take k P)) g, msIndexToNode := ms',
                           removeNodesQ := []\<rparr>"
  have "filter (\<lambda>n. n \<notin> set (take k (P @ A))) (P @ A) = drop k (P @ A)"
    using dPA by (rule filter_notin_take)
  then have "nodeIds (without (set (take k P)) g) = drop k (P @ A)"
    unfolding nodeIds_without ng tk .
  then have n1: "nodeIds (graph v1) = drop k (P @ A)"
    by (simp add: v1_def)
  have r1: "drawBatch now v = Some v1" using db r by (simp add: v1_def)
  have r2: "links (graph v1) = []" by (simp add: v1_def links_without lg)
  have r3: "wellFormed (graph v1)" using wellFormed_without [OF wg] by (simp add: v1_def)
  have r4: "existingIdsV v1 = drop k (P @ A)" by (simp add: v1_def v0_def)
  have r5: "removeNodesQ v1 = []" "newItems v1 = drop c (newItems v)"
    "smallNetworkInterval v1 = smallNetworkInterval v"
    by (simp_all add: v1_def v0_def)
  show ?thesis
  proof (intro conjI exI [of _ v1])
    show "batchAdded now v = map idOf its" by (rule ba)
    show "drawBatch now v = Some v1" by (rule r1)
    show "nodeIds (graph v1) = drop k (nodeIds (graph v) @ map idOf its)"
      using n1 by (simp only: P_def A_def)
    show "links (graph v1) = []" by (rule r2)
    show "wellFormed (graph v1)" by (rule r3)
    show "existingIdsV v1 = nodeIds (graph v1)" by (simp only: r4 n1)
    show "removeNodesQ v1 = []" by (rule r5(1))
    show "newItems v1 = drop ((length (newItems v) + 49) div 50) (newItems v)"
      using r5(2) by (simp only: c_def)
    show "smallNetworkInterval v1 = smallNetworkInterval v" by (rule r5(3))
  qed
qed


subsection \<open>Two batches of a flood\<close>

text \<open>
  A run that reaches the cap: 250000 parentless items arrive, the first batch draws 5000
  of them, the second 4900 more. The sweep of the second batch shifts the 4900 oldest ids
  out of \<^verbatim>\<open>_existingIds\<close> and queues them, and the draining removes their nodes.
\<close>

lemma pastIds_take: "m \<le> n \<Longrightarrow> take m (pastIds n) = pastIds m"
  by (simp add: pastIds_def take_map)

lemma length_floodItems: "length (floodItems n) = n"
  by (simp add: floodItems_def)

lemma pastIds_nonempty: "[] \<notin> set (pastIds n)"
  by (auto simp: pastIds_def)

lemma floodItems_ids: "\<forall>item\<in>set (floodItems n). idOf item \<noteq> []"
  by (simp add: floodItems_def txItem_def)

lemma floodItems_parentless:
  "\<forall>it\<in>set (take c (drop lo (floodItems n))). parent1 it = [] \<and> parent2 it = []"
proof
  fix it assume "it \<in> set (take c (drop lo (floodItems n)))"
  then have "it \<in> set (floodItems n)" by (meson in_set_takeD in_set_dropD)
  then show "parent1 it = [] \<and> parent2 it = []" by (auto simp: floodItems_def txItem_def)
qed

lemma floodItems_window:
  assumes "lo + c \<le> n"
  shows "map idOf (take c (drop lo (floodItems n))) = drop lo (pastIds (lo + c))"
proof -
  have "map idOf (take c (drop lo (floodItems n))) = take c (drop lo (pastIds n))"
    by (simp add: take_map drop_map flip: idOf_floodItems)
  also have "\<dots> = drop lo (take (lo + c) (pastIds n))"
    by (simp add: take_drop add.commute)
  also have "\<dots> = drop lo (pastIds (lo + c))"
    using assms by (simp only: pastIds_take)
  finally show ?thesis .
qed

lemma pastIds_split: "pastIds lo @ drop lo (pastIds (lo + c)) = pastIds (lo + c)"
proof -
  have "take lo (pastIds (lo + c)) = pastIds lo" by (rule pastIds_take) simp
  then show ?thesis using append_take_drop_id [of lo "pastIds (lo + c)"] by simp
qed

lemma pastIds_disjoint: "set (drop lo (pastIds (lo + c))) \<inter> set (pastIds lo) = {}"
proof -
  have "distinct (pastIds lo @ drop lo (pastIds (lo + c)))"
    by (simp only: pastIds_split distinct_pastIds)
  then show ?thesis by auto
qed

lemma prunable_early: "now \<le> 60000 \<Longrightarrow> prunable now v = {}"
  by (auto simp: prunable_def smallComponent_def)

lemma two_batches_flood:
  assumes c1: "c1 = (n + 49) div 50" and c2: "c2 = (n - c1 + 49) div 50"
    and le: "c1 \<le> MAX_ITEMS" "c2 \<le> MAX_ITEMS" "c1 + c2 \<le> n" "0 < c1" "0 < c2"
    and t: "t2 \<le> 60000"
    and evs: "evs = [ItemsUpdated (floodItems n) t0 t0', DrawUpdates t1 t2, DrawUpdates t3 t4]"
  shows "admissible evs (newVisualizer Og)
     \<and> (\<exists>v. runV evs (newVisualizer Og) = Some v
            \<and> nodeIds (graph v) = drop (c1 + c2 - MAX_ITEMS) (pastIds (c1 + c2))
            \<and> existingIdsV v = nodeIds (graph v))"
proof -
  define v1 where "v1 = flood n"
  have s1: "stepV (ItemsUpdated (floodItems n) t0 t0') (newVisualizer Og) = Some v1"
    by (simp add: itemsUpdated_def flood_def newVisualizer_def v1_def)
  have f1: "fits (ItemsUpdated (floodItems n) t0 t0') (newVisualizer Og)"
    using floodItems_ids by simp
  have n1: "newItems v1 = floodItems n" "length (newItems v1) = n"
    and g1: "nodeIds (graph v1) = []" "links (graph v1) = []" "wellFormed (graph v1)"
      "existingIdsV v1 = nodeIds (graph v1)" "removeNodesQ v1 = []"
      "smallNetworkInterval v1 = 0"
    by (simp_all add: v1_def flood_def newVisualizer_def emptyGraph_def nodeIds_def
        wellFormed_def floodItems_def)
  define its1 where "its1 = take c1 (drop 0 (floodItems n))"
  have i1: "its1 = take ((length (newItems v1) + 49) div 50) (newItems v1)"
    by (simp add: its1_def n1(1) length_floodItems c1)
  have a1: "map idOf its1 = pastIds c1"
    using floodItems_window [of 0 c1 n] le(3) by (simp add: its1_def)
  have l1: "length its1 = c1" using le(3) by (simp add: its1_def floodItems_def)
  have pl1: "\<forall>it\<in>set its1. parent1 it = [] \<and> parent2 it = []"
    unfolding its1_def by (rule floodItems_parentless)
  have di1: "distinct (map idOf its1)" unfolding a1 by (rule distinct_pastIds)
  have dj1: "set (map idOf its1) \<inter> set (nodeIds (graph v1)) = {}" by (simp add: g1(1))
  have ne1: "[] \<notin> set (nodeIds (graph v1))" by (simp add: g1(1))
  have le1: "length its1 \<le> MAX_ITEMS" using le(1) by (simp add: l1)
  have k1: "0 = length (nodeIds (graph v1)) + length its1 - MAX_ITEMS"
    using le(1) by (simp add: g1(1) l1)
  from drawBatch_linkless [OF g1(3) g1(2) g1(4) g1(5) ne1 i1 pl1 di1 dj1 le1 k1, of t1]
  obtain v2 where
    b1: "batchAdded t1 v1 = map idOf its1" and d1: "drawBatch t1 v1 = Some v2"
    and q2: "nodeIds (graph v2) = drop 0 (nodeIds (graph v1) @ map idOf its1)"
      "links (graph v2) = []" "wellFormed (graph v2)"
      "existingIdsV v2 = nodeIds (graph v2)" "removeNodesQ v2 = []"
      "newItems v2 = drop ((length (newItems v1) + 49) div 50) (newItems v1)"
      "smallNetworkInterval v2 = smallNetworkInterval v1"
    by blast
  have p2: "nodeIds (graph v2) = pastIds c1" "links (graph v2) = []" "wellFormed (graph v2)"
      "existingIdsV v2 = nodeIds (graph v2)" "removeNodesQ v2 = []"
      "newItems v2 = drop c1 (floodItems n)" "smallNetworkInterval v2 = 0"
    using q2 by (simp_all add: g1(1) g1(6) a1 n1(1) length_floodItems c1)
  define v2' where "v2' = v2\<lparr>smallNetworkInterval := Suc (smallNetworkInterval v2)\<rparr>"
  have "wellFormed (graph v2')" "[] \<notin> set (nodeIds (graph v2'))" "removeNodesQ v2' = []"
    using p2 pastIds_nonempty by (simp_all add: v2'_def)
  from removeSmallNetworks_result [OF this, of t2] obtain v3 where
    r3: "removeSmallNetworks t2 v2' = Some v3"
    and c3: "clearGraphIds (graph v3) = without (prunable t2 v2') (clearGraphIds (graph v2'))"
    and o3: "existingIdsV v3 = existingIdsV v2'" "removeNodesQ v3 = []"
      "newItems v3 = newItems v2'" "smallNetworkInterval v3 = smallNetworkInterval v2'"
    by blast
  have "clearGraphIds (graph v3) = clearGraphIds (graph v2')"
    using c3 by (simp add: prunable_early [OF t] without_empty)
  note sh = same_shape [OF this]
  have p3: "nodeIds (graph v3) = pastIds c1" "links (graph v3) = []" "wellFormed (graph v3)"
    "existingIdsV v3 = nodeIds (graph v3)" "removeNodesQ v3 = []"
    "newItems v3 = drop c1 (floodItems n)" "smallNetworkInterval v3 = 1"
    using p2 o3 by (simp_all add: sh v2'_def)
  have pos1: "length (newItems v1) > 0" using le(3,4) by (simp add: n1(2))
  have s2: "stepV (DrawUpdates t1 t2) v1 = Some v3"
    using d1 r3 pos1 by (simp add: drawUpdates_def p2(7) v2'_def)
  have f2: "fits (DrawUpdates t1 t2) v1"
    using le(1) by (simp add: b1 l1)
  have ln3: "length (newItems v3) = n - c1" by (simp add: p3 floodItems_def)
  define its2 where "its2 = take c2 (drop c1 (floodItems n))"
  have i2: "its2 = take ((length (newItems v3) + 49) div 50) (newItems v3)"
    by (simp add: its2_def p3(6) length_floodItems c2)
  have a2: "map idOf its2 = drop c1 (pastIds (c1 + c2))"
    unfolding its2_def using le(3) by (rule floodItems_window)
  have l2: "length its2 = c2" using le(3) by (simp add: its2_def floodItems_def)
  have dj2: "set (map idOf its2) \<inter> set (nodeIds (graph v3)) = {}"
    unfolding a2 p3(1) by (rule pastIds_disjoint)
  have di2: "distinct (map idOf its2)"
    unfolding a2 using distinct_pastIds by (rule distinct_drop)
  have ne3: "[] \<notin> set (nodeIds (graph v3))" unfolding p3(1) by (rule pastIds_nonempty)
  have pl2: "\<forall>it\<in>set its2. parent1 it = [] \<and> parent2 it = []"
    unfolding its2_def by (rule floodItems_parentless)
  have k2: "c1 + c2 - MAX_ITEMS = length (nodeIds (graph v3)) + length its2 - MAX_ITEMS"
    by (simp add: p3(1) l2 pastIds_def)
  have le2: "length its2 \<le> MAX_ITEMS" using le(2) by (simp add: l2)
  from drawBatch_linkless [OF p3(3) p3(2) p3(4) p3(5) ne3 i2 pl2 di2 dj2 le2 k2, of t3]
  obtain v4 where
    b2: "batchAdded t3 v3 = map idOf its2" and d2: "drawBatch t3 v3 = Some v4"
    and p4: "nodeIds (graph v4) = drop (c1 + c2 - MAX_ITEMS) (nodeIds (graph v3) @ map idOf its2)"
      "existingIdsV v4 = nodeIds (graph v4)" "smallNetworkInterval v4 = smallNetworkInterval v3"
    by blast
  have n4: "nodeIds (graph v4) = drop (c1 + c2 - MAX_ITEMS) (pastIds (c1 + c2))"
    unfolding p4(1) p3(1) a2 pastIds_split ..
  define v5 where "v5 = v4\<lparr>smallNetworkInterval := Suc (smallNetworkInterval v4)\<rparr>"
  have pos3: "length (newItems v3) > 0" using le(3,5) by (simp add: ln3)
  have s3: "stepV (DrawUpdates t3 t4) v3 = Some v5"
    using d2 pos3 by (simp add: drawUpdates_def p4(3) p3(7) v5_def)
  have f3: "fits (DrawUpdates t3 t4) v3"
    using le2 by (simp add: b2)
  have "admissible evs (newVisualizer Og)"
    by (simp only: evs admissible.simps f1 s1 f2 s2 f3 s3 option.case simp_thms)
  moreover have "runV evs (newVisualizer Og) = Some v5"
    by (simp only: evs runV.simps s1 s2 s3 option.case)
  moreover have "nodeIds (graph v5) = drop (c1 + c2 - MAX_ITEMS) (pastIds (c1 + c2))"
    "existingIdsV v5 = nodeIds (graph v5)"
    using n4 p4(2) by (simp_all add: v5_def)
  ultimately show ?thesis by blast
qed


theorem C2_node_cap_witness:
  "admissible capRun (newVisualizer Og)
   \<and> (\<exists>v. runV capRun (newVisualizer Og) = Some v
          \<and> nodeIds (graph v) = drop 4900 (pastIds 9900)
          \<and> existingIdsV v = drop 4900 (pastIds 9900)
          \<and> length (nodeIds (graph v)) \<le> MAX_ITEMS
          \<and> set (nodeIds (graph v)) \<subseteq> set (existingIdsV v)
          \<and> length (existingIdsV v) \<le> MAX_ITEMS)"
proof -
  have "admissible capRun (newVisualizer Og)
     \<and> (\<exists>v. runV capRun (newVisualizer Og) = Some v
            \<and> nodeIds (graph v) = drop (5000 + 4900 - MAX_ITEMS) (pastIds (5000 + 4900))
            \<and> existingIdsV v = nodeIds (graph v))"
    by (rule two_batches_flood [where n = 250000 and ?t2.0 = 20])
      (simp_all add: MAX_ITEMS_def capRun_def)
  then obtain v where a: "admissible capRun (newVisualizer Og)"
    and r: "runV capRun (newVisualizer Og) = Some v"
    and n: "nodeIds (graph v) = drop 4900 (pastIds 9900)"
    and e: "existingIdsV v = drop 4900 (pastIds 9900)"
    by (auto simp: MAX_ITEMS_def)
  from C2_node_cap_for_batches_that_fit [of capRun Og, THEN conjunct1, rule_format, OF a]
  show ?thesis using a r n e by auto
qed

end

